theory Spec2Isabelle
  imports Main "HOL-Library.Word" "HOL-Library.Sublist" "HOL-Library.AList"
begin

section \<open>The file system seen through QFileInfo, QDir and QFile\<close>

text \<open>
  \<^verbatim>\<open>mmodel.cpp\<close> reads and changes the disk only through Qt: \<^verbatim>\<open>QFileInfo\<close>
  (\<^verbatim>\<open>exists\<close>, \<^verbatim>\<open>isDir\<close>, \<^verbatim>\<open>isFile\<close>, \<^verbatim>\<open>size\<close>), \<^verbatim>\<open>QDirIterator\<close>,
  \<^verbatim>\<open>QDir::removeRecursively\<close>, \<^verbatim>\<open>QFile::remove\<close> and \<^verbatim>\<open>QSettings\<close>. The disk is a
  finite table from absolute paths to nodes. A path \<open>k\<close> lies below a directory \<open>d\<close> when
  \<open>d\<close> followed by a slash is a prefix of \<open>k\<close>. A file carries its length (a \<^verbatim>\<open>qint64\<close>),
  a flag telling that the system refuses to unlink it, and the key/value pairs that
  \<^verbatim>\<open>QSettings\<close> reads from it. Symbolic links are not modelled.
\<close>

type_synonym qint64 = "64 word"

datatype node = File (fsize: qint64) (locked: bool) (ini: "(string \<times> string) list") | Dir

type_synonym filesystem = "(string \<times> node) list"

definition wellFormed :: "filesystem \<Rightarrow> bool" where
  "wellFormed fs = distinct (map fst fs)"

definition pathExists :: "filesystem \<Rightarrow> string \<Rightarrow> bool" where
  "pathExists fs p = (map_of fs p \<noteq> None)"

definition isDir :: "filesystem \<Rightarrow> string \<Rightarrow> bool" where
  "isDir fs p = (map_of fs p = Some Dir)"

definition isFile :: "filesystem \<Rightarrow> string \<Rightarrow> bool" where
  "isFile fs p = (case map_of fs p of Some (File _ _ _) \<Rightarrow> True | _ \<Rightarrow> False)"

definition fileSize :: "filesystem \<Rightarrow> string \<Rightarrow> qint64" where
  "fileSize fs p = (case map_of fs p of Some (File s _ _) \<Rightarrow> s | _ \<Rightarrow> 0)"

definition below :: "string \<Rightarrow> string \<Rightarrow> bool" where
  "below d k = prefix (d @ ''/'') k"

fun isPlainFile :: "node \<Rightarrow> bool" where
  "isPlainFile (File _ _ _) = True"
| "isPlainFile Dir = False"

fun isLockedFile :: "node \<Rightarrow> bool" where
  "isLockedFile (File _ l _) = l"
| "isLockedFile Dir = False"

text \<open>
  \<^verbatim>\<open>QDirIterator it(path, QDir::Files | QDir::Hidden, QDirIterator::Subdirectories)\<close>:
  every file at any depth below \<open>path\<close>, hidden ones included.
\<close>

definition filesBelow :: "filesystem \<Rightarrow> string \<Rightarrow> (string \<times> node) list" where
  "filesBelow fs d = filter (\<lambda>(k, n). below d k \<and> isPlainFile n) fs"

definition lockedBelow :: "filesystem \<Rightarrow> string \<Rightarrow> bool" where
  "lockedBelow fs d = list_ex (\<lambda>(k, n). below d k \<and> isLockedFile n) fs"

text \<open>
  \<^verbatim>\<open>QFile::remove(p)\<close> unlinks one file and reports whether it did.
\<close>

definition removeFile :: "filesystem \<Rightarrow> string \<Rightarrow> bool \<times> filesystem" where
  "removeFile fs p =
     (case map_of fs p of
        Some (File _ l _) \<Rightarrow> if l then (False, fs) else (True, filter (\<lambda>(k, n). k \<noteq> p) fs)
      | _ \<Rightarrow> (False, fs))"

text \<open>
  \<^verbatim>\<open>QDir(p).removeRecursively()\<close> keeps going after a failure: it removes every file it
  can, then every directory that has become empty, and returns whether everything,
  the directory itself included, is gone. A node at or below \<open>d\<close> stays exactly when it is
  a file that cannot be unlinked or a directory with such a file below it.
\<close>

definition survives :: "filesystem \<Rightarrow> string \<Rightarrow> string \<times> node \<Rightarrow> bool" where
  "survives fs d = (\<lambda>(k, n).
     if k = d \<or> below d k
     then (case n of File _ l _ \<Rightarrow> l | Dir \<Rightarrow> lockedBelow fs k)
     else True)"

definition removeRecursively :: "filesystem \<Rightarrow> string \<Rightarrow> bool \<times> filesystem" where
  "removeRecursively fs d = (\<not> lockedBelow fs d, filter (survives fs d) fs)"

section \<open>getSize\<close>

text \<open>
  The loop of \<^verbatim>\<open>getSize\<close> over the iterator: \<^verbatim>\<open>res += it.fileInfo().size()\<close>.
\<close>

fun sumSizes :: "qint64 \<Rightarrow> (string \<times> node) list \<Rightarrow> qint64" where
  "sumSizes res [] = res"
| "sumSizes res ((k, n) # rest) = sumSizes (res + fsize n) rest"

definition getSize :: "filesystem \<Rightarrow> string \<Rightarrow> qint64" where
  "getSize fs path =
     (if isDir fs path then sumSizes 0 (filesBelow fs path)
      else if isFile fs path then 0 + fileSize fs path
      else 0)"

section \<open>The model object\<close>

text \<open>
  \<^verbatim>\<open>MEntry\<close>, the role and flag enumerations and the members of \<^verbatim>\<open>MModel\<close> are declared
  in \<^verbatim>\<open>mmodel.h\<close>; the fields below are the ones \<^verbatim>\<open>mmodel.cpp\<close> uses, under their names.
  The sizes are \<^verbatim>\<open>qint64\<close> and are compared as signed numbers; the counter of unused
  applications is an \<^verbatim>\<open>int\<close>.
\<close>

record MEntry =
  installed :: bool
  title :: string
  icon :: string
  config_size :: qint64
  cache_size :: qint64
  data_size :: qint64
  config_paths :: "string list"
  cache_paths :: "string list"
  data_paths :: "string list"

text \<open>
  Modelled from the spec: the default-constructed \<^verbatim>\<open>MEntry\<close> (the member initialisers are
  in \<^verbatim>\<open>mmodel.h\<close>). A fresh record is not installed, has an empty title and icon, no paths
  and size 0 in every category.
\<close>

definition defaultEntry :: MEntry where
  "defaultEntry = \<lparr> installed = False, title = [], icon = [],
     config_size = 0, cache_size = 0, data_size = 0,
     config_paths = [], cache_paths = [], data_paths = [] \<rparr>"

datatype DataType = ConfigData | CacheData | LocalData

type_synonym DataTypes = "DataType set"

datatype Role = NameRole | TitleRole | IconRole | InstalledRole
  | ConfigSizeRole | CacheSizeRole | LocalDataSizeRole | SortRole

text \<open>
  What the object sends out: its own signals, and the calls into \<^verbatim>\<open>QAbstractItemModel\<close>
  that notify the view. Log lines (\<^verbatim>\<open>qDebug\<close>, \<^verbatim>\<open>qWarning\<close>, \<^verbatim>\<open>qCritical\<close>) are not
  recorded.
\<close>

datatype signal =
    BusyChanged
  | ResettingChanged
  | TotalChanged
  | DeletionError string
  | DataDeleted qint64
  | BeginResetModel
  | EndResetModel
  | BeginRemoveRows int int
  | EndRemoveRows
  | DataChanged int "Role list"

record MModel =
  m_busy :: bool
  m_resetting :: bool
  m_names :: "string list"
  m_entries :: "(string \<times> MEntry) list"
  m_unused_apps_count :: "32 word"
  m_total_cache_size :: qint64
  m_total_config_size :: qint64
  m_total_localdata_size :: qint64
  m_unused_config_size :: qint64
  m_unused_cache_size :: qint64
  m_unused_localdata_size :: qint64

text \<open>
  The methods run against the object, the disk and the stream of signals sent so far.
  \<^verbatim>\<open>m_entries\<close> is kept as an association list, looked up by key; the type of the
  container, and with it the order of iteration, is declared in \<^verbatim>\<open>mmodel.h\<close>, so the
  statements below are made for any order of the keys.
\<close>

record world = MModel +
  disk :: filesystem
  emitted :: "signal list"

definition emit :: "signal \<Rightarrow> world \<Rightarrow> world" where
  "emit s w = w\<lparr>emitted := emitted w @ [s]\<rparr>"

definition setBusy :: "bool \<Rightarrow> world \<Rightarrow> world" where
  "setBusy busy w = emit BusyChanged (w\<lparr>m_busy := busy\<rparr>)"

section \<open>removePaths\<close>

text \<open>
  The build without \<^verbatim>\<open>SAFE_MODE\<close>. The second loop measures a path, then removes it:
  a directory recursively, a file by unlinking, anything else not at all.
\<close>

definition removePath :: "filesystem \<Rightarrow> string \<Rightarrow> bool \<times> filesystem" where
  "removePath fs p =
     (if isDir fs p then removeRecursively fs p
      else if isFile fs p then removeFile fs p
      else (False, fs))"

fun removeLoop :: "string list \<Rightarrow> qint64 \<Rightarrow> world \<Rightarrow> qint64 \<times> world" where
  "removeLoop [] res w = (res, w)"
| "removeLoop (p # ps) res w =
     (let sz = getSize (disk w) p;
          (ok, fs) = removePath (disk w) p
      in if ok then removeLoop ps (res + sz) (w\<lparr>disk := fs\<rparr>)
         else removeLoop ps res (emit (DeletionError p) (w\<lparr>disk := fs\<rparr>)))"

definition removePaths :: "world \<Rightarrow> string list \<Rightarrow> qint64 \<times> world" where
  "removePaths w paths =
     (if list_ex (\<lambda>p. p = []) paths then (0, w) else removeLoop paths 0 w)"

section \<open>clearEntry\<close>

text \<open>
  \<^verbatim>\<open>clearEntry\<close> is three blocks in a row, one per category, each working on the
  entry, the running total \<^verbatim>\<open>deleted\<close>, the vector \<^verbatim>\<open>changed\<close> and the disk that
  the block before it left. \<^verbatim>\<open>types.testFlag(f)\<close> is membership of the flag.
\<close>

type_synonym clearing = "Role list \<times> MEntry \<times> qint64 \<times> world"

definition clearConfig :: "DataTypes \<Rightarrow> clearing \<Rightarrow> clearing" where
  "clearConfig types = (\<lambda>(changed, entry, deleted, w).
     if ConfigData \<in> types \<and> 0 <s config_size entry
     then (let (c, w') = removePaths w (config_paths entry)
           in if 0 <s c
              then (changed @ [ConfigSizeRole], entry\<lparr>config_size := 0\<rparr>, deleted + c, w')
              else (changed, entry, deleted, w'))
     else (changed, entry, deleted, w))"

definition clearCache :: "DataTypes \<Rightarrow> clearing \<Rightarrow> clearing" where
  "clearCache types = (\<lambda>(changed, entry, deleted, w).
     if CacheData \<in> types \<and> 0 <s cache_size entry
     then (let (c, w') = removePaths w (cache_paths entry)
           in if 0 <s c
              then (changed @ [CacheSizeRole], entry\<lparr>cache_size := 0\<rparr>, deleted + c, w')
              else (changed, entry, deleted, w'))
     else (changed, entry, deleted, w))"

definition clearLocal :: "DataTypes \<Rightarrow> clearing \<Rightarrow> clearing" where
  "clearLocal types = (\<lambda>(changed, entry, deleted, w).
     if LocalData \<in> types \<and> 0 <s data_size entry
     then (let (c, w') = removePaths w (data_paths entry)
           in if 0 <s c
              then (changed @ [LocalDataSizeRole], entry\<lparr>data_size := 0\<rparr>, deleted + c, w')
              else (changed, entry, deleted, w'))
     else (changed, entry, deleted, w))"

definition clearEntry :: "world \<Rightarrow> MEntry \<Rightarrow> qint64 \<Rightarrow> DataTypes \<Rightarrow> clearing" where
  "clearEntry w entry deleted types =
     clearLocal types (clearCache types (clearConfig types ([], entry, deleted, w)))"

section \<open>calculateTotal\<close>

text \<open>
  The body of the loop over the entries, with the fields as the source pairs them:
  \<^verbatim>\<open>m_total_localdata_size += e.config_size\<close> and \<^verbatim>\<open>m_total_config_size += e.data_size\<close>.
\<close>

definition totalStep :: "MEntry \<Rightarrow> world \<Rightarrow> world" where
  "totalStep e w =
     (let w1 = w\<lparr> m_total_localdata_size := m_total_localdata_size w + config_size e,
                  m_total_cache_size := m_total_cache_size w + cache_size e,
                  m_total_config_size := m_total_config_size w + data_size e \<rparr>
      in if \<not> installed e
         then w1\<lparr> m_unused_apps_count := m_unused_apps_count w1 + 1,
                  m_unused_config_size := m_unused_config_size w1 + config_size e,
                  m_unused_cache_size := m_unused_cache_size w1 + cache_size e,
                  m_unused_localdata_size := m_unused_localdata_size w1 + data_size e \<rparr>
         else w1)"

definition calculateTotal :: "world \<Rightarrow> world" where
  "calculateTotal w =
     emit TotalChanged
       (fold totalStep (map snd (m_entries w))
          (w\<lparr> m_unused_apps_count := 0, m_total_localdata_size := 0, m_total_cache_size := 0,
              m_total_config_size := 0, m_unused_config_size := 0, m_unused_cache_size := 0,
              m_unused_localdata_size := 0 \<rparr>))"

definition totalConfigSize :: "world \<Rightarrow> qint64" where
  "totalConfigSize w = m_total_config_size w"

definition totalCacheSize :: "world \<Rightarrow> qint64" where
  "totalCacheSize w = m_total_cache_size w"

definition totalLocaldataSize :: "world \<Rightarrow> qint64" where
  "totalLocaldataSize w = m_total_localdata_size w"

definition unusedAppsCount :: "world \<Rightarrow> 32 word" where
  "unusedAppsCount w = m_unused_apps_count w"

section \<open>What the absent headers and the platform supply\<close>

text \<open>
  \<^verbatim>\<open>knownApps()\<close> and \<^verbatim>\<open>excludeDirs()\<close> come from \<^verbatim>\<open>mknown_apps.hpp\<close>, the three
  search roots and the directories of \<^verbatim>\<open>.desktop\<close> files from \<^verbatim>\<open>QStandardPaths\<close>, and
  \<^verbatim>\<open>MEntry::exists()\<close> from \<^verbatim>\<open>mmodel.h\<close>. None of them is among the sources, so the
  methods take them as parameters. Of the regular expression only the two things
  \<^verbatim>\<open>resetImpl\<close> asks are kept: its pattern and whether it matches a path.
\<close>

record KnownApp =
  app_name :: string
  app_config :: "string list"
  app_cache :: "string list"
  app_local_data :: "string list"

record Env =
  knownApps :: "KnownApp list"
  excludePattern :: string
  excludeMatch :: "string \<Rightarrow> bool"
  genericConfigLocation :: string
  genericCacheLocation :: string
  genericDataLocation :: string
  applicationsLocations :: "string list"
  entryExists :: "MEntry \<Rightarrow> bool"

text \<open>
  Modelled from the spec: \<^verbatim>\<open>MEntry::exists()\<close>, declared in \<^verbatim>\<open>mmodel.h\<close>, as the value
  of the parameter in the sample runs. In the specification a descriptor yields a record
  only if at least one category ends up with at least one path, and that is
  \<^verbatim>\<open>exists()\<close> being true.
\<close>

definition existsByPaths :: "MEntry \<Rightarrow> bool" where
  "existsByPaths e = (\<not> (config_paths e = [] \<and> cache_paths e = [] \<and> data_paths e = []))"

section \<open>resetImpl\<close>

fun processKnownPaths ::
  "filesystem \<Rightarrow> string list \<times> qint64 \<Rightarrow> string list \<Rightarrow> string list \<times> qint64" where
  "processKnownPaths fs (paths, sz) [] = (paths, sz)"
| "processKnownPaths fs (paths, sz) (p # known_paths) =
     (if pathExists fs p
      then processKnownPaths fs (paths @ [p], sz + getSize fs p) known_paths
      else processKnownPaths fs (paths, sz) known_paths)"

text \<open>The loop over \<^verbatim>\<open>knownApps()\<close>; \<^verbatim>\<open>insert\<close> replaces the value of a key already there.\<close>

fun knownLoop :: "Env \<Rightarrow> KnownApp list \<Rightarrow> world \<Rightarrow> world" where
  "knownLoop env [] w = w"
| "knownLoop env (app # apps) w =
     (let (cp, cs) = processKnownPaths (disk w)
                       (config_paths defaultEntry, config_size defaultEntry) (app_config app);
          (hp, hs) = processKnownPaths (disk w)
                       (cache_paths defaultEntry, cache_size defaultEntry) (app_cache app);
          (dp, ds) = processKnownPaths (disk w)
                       (data_paths defaultEntry, data_size defaultEntry) (app_local_data app);
          e = defaultEntry\<lparr> config_paths := cp, config_size := cs,
                cache_paths := hp, cache_size := hs, data_paths := dp, data_size := ds \<rparr>
      in if entryExists env e
         then knownLoop env apps
                (w\<lparr> m_names := m_names w @ [app_name app],
                    m_entries := AList.update (app_name app) e (m_entries w) \<rparr>)
         else knownLoop env apps w)"

text \<open>
  \<^verbatim>\<open>QDirIterator it(root, {"harbour-*"}, QDir::Dirs | QDir::NoDotAndDotDot)\<close>: the
  directories directly inside \<open>root\<close> whose name matches the wildcard, each with its path
  and its name. The flag \<^verbatim>\<open>QDir::CaseSensitive\<close> is not given, so the letters match in
  either case.
\<close>

definition harbourName :: "string \<Rightarrow> bool" where
  "harbourName nm =
     list_all2 (\<lambda>c (l, u). c = l \<or> c = u) (take 8 nm) (zip ''harbour-'' ''HARBOUR-'')"

definition harbourDirs :: "filesystem \<Rightarrow> string \<Rightarrow> (string \<times> string) list" where
  "harbourDirs fs root =
     (if isDir fs root
      then map (\<lambda>(k, n). (k, drop (length root + 1) k))
             (filter (\<lambda>(k, n). n = Dir \<and> below root k
                        \<and> CHR ''/'' \<notin> set (drop (length root + 1) k)
                        \<and> harbourName (drop (length root + 1) k)) fs)
      else [])"

text \<open>
  The body of the \<^verbatim>\<open>while\<close> loop for search root number \<open>i\<close>. \<^verbatim>\<open>m_entries[dirname]\<close>
  creates a default entry for a new name. The path is appended, the size is assigned.
\<close>

fun discoverLoop :: "Env \<Rightarrow> nat \<Rightarrow> (string \<times> string) list \<Rightarrow> world \<Rightarrow> world" where
  "discoverLoop env i [] w = w"
| "discoverLoop env i ((dirpath, dirname) # rest) w =
     (if excludePattern env \<noteq> [] \<and> excludeMatch env dirpath
      then discoverLoop env i rest w
      else
        (let sz = getSize (disk w) dirpath;
             w1 = (if map_of (m_entries w) dirname = None
                   then w\<lparr>m_names := m_names w @ [dirname]\<rparr> else w);
             e = (case map_of (m_entries w1) dirname of Some e \<Rightarrow> e | None \<Rightarrow> defaultEntry);
             e' = (if i = 0 then e\<lparr>config_paths := config_paths e @ [dirpath], config_size := sz\<rparr>
                   else if i = 1 then e\<lparr>cache_paths := cache_paths e @ [dirpath], cache_size := sz\<rparr>
                   else e\<lparr>data_paths := data_paths e @ [dirpath], data_size := sz\<rparr>)
         in discoverLoop env i rest (w1\<lparr>m_entries := AList.update dirname e' (m_entries w1)\<rparr>)))"

text \<open>
  \<^verbatim>\<open>QSettings desktop(path, QSettings::IniFormat)\<close> and \<^verbatim>\<open>desktop.value(key)\<close>.
\<close>

definition desktopValue :: "filesystem \<Rightarrow> string \<Rightarrow> string \<Rightarrow> string option" where
  "desktopValue fs path key =
     (case map_of fs path of Some (File _ _ kv) \<Rightarrow> map_of kv key | _ \<Rightarrow> None)"

text \<open>The two icon templates, each split at its \<^verbatim>\<open>%1\<close>: what precedes the icon name.\<close>

definition icon_tmpls :: "string list" where
  "icon_tmpls = [''/usr/share/icons/hicolor/86x86/apps/'',
     ''/usr/share/themes/sailfish-default/meegotouch/z1.0/icons/'']"

fun iconLoop :: "filesystem \<Rightarrow> string list \<Rightarrow> string \<Rightarrow> MEntry \<Rightarrow> MEntry" where
  "iconLoop fs [] icon_name e = e"
| "iconLoop fs (tmpl # tmpls) icon_name e =
     (if isFile fs (tmpl @ icon_name @ ''.png'')
      then e\<lparr>icon := tmpl @ icon_name @ ''.png''\<rparr>
      else iconLoop fs tmpls icon_name e)"

fun desktopLoop :: "filesystem \<Rightarrow> string \<Rightarrow> string list \<Rightarrow> MEntry \<Rightarrow> MEntry" where
  "desktopLoop fs nm [] e = e"
| "desktopLoop fs nm (path # paths) e =
     (let desktop_path = path @ ''/'' @ nm @ ''.desktop''
      in if isFile fs desktop_path
         then iconLoop fs icon_tmpls
                (case desktopValue fs desktop_path ''Desktop Entry/Icon'' of
                   Some v \<Rightarrow> v | None \<Rightarrow> nm)
                (e\<lparr> installed := True,
                    title := (case desktopValue fs desktop_path ''Desktop Entry/Name'' of
                                Some v \<Rightarrow> v | None \<Rightarrow> []) \<rparr>)
         else desktopLoop fs nm paths e)"

fun namesLoop :: "Env \<Rightarrow> string list \<Rightarrow> world \<Rightarrow> world" where
  "namesLoop env [] w = w"
| "namesLoop env (nm # rest) w =
     namesLoop env rest
       (w\<lparr>m_entries := AList.map_entry nm
             (desktopLoop (disk w) nm (applicationsLocations env)) (m_entries w)\<rparr>)"

definition resetImpl :: "Env \<Rightarrow> world \<Rightarrow> world" where
  "resetImpl env w0 =
     (let w1 = setBusy True w0;
          w2 = emit BeginResetModel w1;
          w3 = emit ResettingChanged (w2\<lparr>m_resetting := True\<rparr>);
          w4 = w3\<lparr>m_names := [], m_entries := []\<rparr>;
          w5 = knownLoop env (knownApps env) w4;
          app_paths = [genericConfigLocation env, genericCacheLocation env,
                       genericDataLocation env];
          w6 = foldl (\<lambda>w i. discoverLoop env i (harbourDirs (disk w) (app_paths ! i)) w)
                 w5 [0, 1, 2];
          w7 = namesLoop env (map fst (m_entries w6)) w6;
          w8 = emit EndResetModel w7;
          w9 = calculateTotal w8;
          w10 = setBusy False w9
      in emit ResettingChanged (w10\<lparr>m_resetting := False\<rparr>))"

section \<open>deleteDataImpl and deleteUnusedDataImpl\<close>

text \<open>\<^verbatim>\<open>QStringList::indexOf\<close>: the first position of the name, or -1.\<close>

definition indexOf :: "string list \<Rightarrow> string \<Rightarrow> int" where
  "indexOf xs x = (if x \<in> set xs then int (length (takeWhile (\<lambda>y. y \<noteq> x) xs)) else - 1)"

definition removeRow :: "string \<Rightarrow> (string \<times> MEntry) list \<Rightarrow> world \<Rightarrow> world" where
  "removeRow nm entries w =
     emit EndRemoveRows
       ((emit (BeginRemoveRows (indexOf (m_names w) nm) (indexOf (m_names w) nm)) w)
          \<lparr> m_names := remove1 nm (m_names w), m_entries := entries \<rparr>)"

text \<open>
  \<^verbatim>\<open>e\<close> is a reference into \<^verbatim>\<open>m_entries\<close>: what \<^verbatim>\<open>clearEntry\<close> writes to it is
  written to the container.
\<close>

definition deleteDataImpl :: "Env \<Rightarrow> world \<Rightarrow> string \<Rightarrow> DataTypes \<Rightarrow> world" where
  "deleteDataImpl env w0 nm types =
     (case map_of (m_entries w0) nm of
        None \<Rightarrow> w0
      | Some e \<Rightarrow>
          (let w1 = setBusy True w0;
               (changed, e', deleted, w2) = clearEntry w1 e 0 types;
               w3 = w2\<lparr>m_entries := AList.update nm e' (m_entries w2)\<rparr>;
               w4 = (if \<not> entryExists env e'
                     then removeRow nm (AList.delete nm (m_entries w3)) w3
                     else emit (DataChanged (indexOf (m_names w3) nm) changed) w3);
               w5 = (if 0 <s deleted then emit (DataDeleted deleted) (calculateTotal w4)
                     else w4)
           in setBusy False w5))"

text \<open>
  The iterator walks the container once. \<open>visited\<close> is what lies before the iterator,
  the list argument after it what lies at and behind it; \<^verbatim>\<open>erase\<close> drops the element at
  the iterator.
\<close>

fun unusedLoop ::
  "Env \<Rightarrow> DataTypes \<Rightarrow> (string \<times> MEntry) list \<Rightarrow> (string \<times> MEntry) list
     \<Rightarrow> qint64 \<Rightarrow> world \<Rightarrow> qint64 \<times> world" where
  "unusedLoop env types visited [] deleted w = (deleted, w)"
| "unusedLoop env types visited ((nm, e) # rest) deleted w =
     (if installed e then unusedLoop env types (visited @ [(nm, e)]) rest deleted w
      else
        (let (changed, e', deleted', w1) = clearEntry w e deleted types;
             w2 = w1\<lparr>m_entries := visited @ (nm, e') # rest\<rparr>
         in if \<not> entryExists env e'
            then unusedLoop env types visited rest deleted'
                   (removeRow nm (visited @ rest) w2)
            else unusedLoop env types (visited @ [(nm, e')]) rest deleted'
                   (emit (DataChanged (indexOf (m_names w2) nm) changed) w2)))"

definition deleteUnusedDataImpl :: "Env \<Rightarrow> world \<Rightarrow> DataTypes \<Rightarrow> world" where
  "deleteUnusedDataImpl env w0 types =
     (let w1 = setBusy True w0;
          (deleted, w2) = unusedLoop env types [] (m_entries w1) 0 w1;
          w3 = (if 0 <s deleted then emit (DataDeleted deleted) (calculateTotal w2) else w2)
      in setBusy False w3)"

section \<open>rowCount and data\<close>

text \<open>
  A \<^verbatim>\<open>QModelIndex\<close> is valid when its row and column are not negative and it belongs
  to a model. The role is an \<^verbatim>\<open>int\<close>; \<open>None\<close> stands for a value that is none of the
  enumerators the \<^verbatim>\<open>switch\<close> lists. \<^verbatim>\<open>m_names[index.row()]\<close> on the constant list
  requires a position inside the list; a read outside is the fault below.
  \<^verbatim>\<open>m_entries[name]\<close> in a \<^verbatim>\<open>const\<close> method yields a default entry for an unknown key.
\<close>

record QModelIndex =
  index_row :: int
  index_column :: int
  index_model :: bool

definition isValid :: "QModelIndex \<Rightarrow> bool" where
  "isValid i = (0 \<le> index_row i \<and> 0 \<le> index_column i \<and> index_model i)"

datatype QVariant = Null | VString string | VBool bool | VLongLong qint64

datatype fault = IndexOutOfRange

definition rowCount :: "world \<Rightarrow> QModelIndex \<Rightarrow> int" where
  "rowCount w parent = (if \<not> isValid parent then int (length (m_names w)) else 0)"

definition titleOrName :: "MEntry \<Rightarrow> string \<Rightarrow> string" where
  "titleOrName entry nm = (if title entry = [] then nm else title entry)"

definition data :: "world \<Rightarrow> QModelIndex \<Rightarrow> Role option \<Rightarrow> fault + QVariant" where
  "data w i role =
     (if \<not> isValid i then Inr Null
      else if length (m_names w) \<le> nat (index_row i) then Inl IndexOutOfRange
      else
        (let nm = m_names w ! nat (index_row i);
             entry = (case map_of (m_entries w) nm of Some e \<Rightarrow> e | None \<Rightarrow> defaultEntry)
         in Inr (case role of
                   Some NameRole \<Rightarrow> VString nm
                 | Some TitleRole \<Rightarrow> VString (titleOrName entry nm)
                 | Some IconRole \<Rightarrow> VString (icon entry)
                 | Some InstalledRole \<Rightarrow> VBool (installed entry)
                 | Some ConfigSizeRole \<Rightarrow> VLongLong (config_size entry)
                 | Some CacheSizeRole \<Rightarrow> VLongLong (cache_size entry)
                 | Some LocalDataSizeRole \<Rightarrow> VLongLong (data_size entry)
                 | Some SortRole \<Rightarrow>
                     VString ((if installed entry then ''0'' else ''1'') @ titleOrName entry nm)
                 | None \<Rightarrow> Null)))"

section \<open>Construction\<close>

text \<open>
  The constructor's member initialisers; the rescan it schedules is \<^verbatim>\<open>resetImpl\<close> below.
  The lists start empty, as \<^verbatim>\<open>QStringList\<close> and the entry container do.
\<close>

definition newModel :: "filesystem \<Rightarrow> world" where
  "newModel fs = \<lparr> m_busy = False, m_resetting = False, m_names = [], m_entries = [],
     m_unused_apps_count = 0, m_total_cache_size = 0, m_total_config_size = 0,
     m_total_localdata_size = 0, m_unused_config_size = 0, m_unused_cache_size = 0,
     m_unused_localdata_size = 0, disk = fs, emitted = [] \<rparr>"

section \<open>PathRemover as the specification describes it\<close>

text \<open>
  The specification has every path of a batch handled on its own: its size is measured,
  then its removal is attempted. \<open>attempts\<close> lists, per path and in order, the size
  measured and whether the removal succeeded; each attempt runs on the disk its
  predecessors left.
\<close>

fun attempts :: "filesystem \<Rightarrow> string list \<Rightarrow> (string \<times> qint64 \<times> bool) list" where
  "attempts fs [] = []"
| "attempts fs (p # ps) =
     (p, getSize fs p, fst (removePath fs p)) # attempts (snd (removePath fs p)) ps"

text \<open>
  A path can be deleted when it is a file that may be unlinked, or a directory with no
  file below it that may not.
\<close>

definition deletable :: "filesystem \<Rightarrow> string \<Rightarrow> bool" where
  "deletable fs p =
     (case map_of fs p of
        None \<Rightarrow> False
      | Some (File _ l _) \<Rightarrow> \<not> l
      | Some Dir \<Rightarrow> \<not> lockedBelow fs p)"

definition goneOrDeletable :: "filesystem \<Rightarrow> string \<Rightarrow> bool" where
  "goneOrDeletable fs p = (map_of fs p = None \<or> deletable fs p)"

section \<open>Sample disks\<close>

definition demoDisk :: filesystem where
  "demoDisk = [(''/d'', Dir), (''/d/a'', File 10 False []),
     (''/d/b'', File 20 True []), (''/d/c'', File 30 False [])]"

section \<open>Vocabulary of the statements\<close>

text \<open>The four components of what a block of \<^verbatim>\<open>clearEntry\<close> hands on.\<close>

definition changedOf :: "clearing \<Rightarrow> Role list" where
  "changedOf = (\<lambda>(changed, entry, deleted, w). changed)"

definition entryOf :: "clearing \<Rightarrow> MEntry" where
  "entryOf = (\<lambda>(changed, entry, deleted, w). entry)"

definition deletedOf :: "clearing \<Rightarrow> qint64" where
  "deletedOf = (\<lambda>(changed, entry, deleted, w). deleted)"

definition worldOf :: "clearing \<Rightarrow> world" where
  "worldOf = (\<lambda>(changed, entry, deleted, w). w)"

text \<open>The sum of \<open>getSize\<close> over the paths recorded for a category.\<close>

definition pathsSize :: "filesystem \<Rightarrow> string list \<Rightarrow> qint64" where
  "pathsSize fs ps = sum_list (map (getSize fs) ps)"

text \<open>Two entries that differ in their three sizes at most.\<close>

definition sizesOnly :: "MEntry \<Rightarrow> MEntry \<Rightarrow> bool" where
  "sizesOnly e e' = (installed e' = installed e \<and> title e' = title e \<and> icon e' = icon e
     \<and> config_paths e' = config_paths e \<and> cache_paths e' = cache_paths e
     \<and> data_paths e' = data_paths e)"

text \<open>
  What one walk of \<open>unusedLoop\<close> may do to the container: an installed record stays as
  it is; an uninstalled one stays with other sizes when it passes \<open>exists()\<close>, or is
  erased.
\<close>

inductive pruned ::
  "(MEntry \<Rightarrow> bool) \<Rightarrow> (string \<times> MEntry) list \<Rightarrow> (string \<times> MEntry) list \<Rightarrow> bool"
  for ex :: "MEntry \<Rightarrow> bool" where
  pruned_Nil: "pruned ex [] []"
| pruned_installed: "pruned ex xs ys \<Longrightarrow> installed e \<Longrightarrow> pruned ex ((n, e) # xs) ((n, e) # ys)"
| pruned_kept: "pruned ex xs ys \<Longrightarrow> \<not> installed e \<Longrightarrow> sizesOnly e e' \<Longrightarrow> ex e'
     \<Longrightarrow> pruned ex ((n, e) # xs) ((n, e') # ys)"
| pruned_erased: "pruned ex xs ys \<Longrightarrow> \<not> installed e \<Longrightarrow> pruned ex ((n, e) # xs) ys"

text \<open>The default-constructed \<^verbatim>\<open>QModelIndex()\<close>, the invisible root.\<close>

definition rootIndex :: QModelIndex where
  "rootIndex = \<lparr> index_row = - 1, index_column = - 1, index_model = False \<rparr>"

text \<open>The path list of category number \<open>i\<close>: 0 configuration, 1 cache, 2 local data.\<close>

definition catPaths :: "nat \<Rightarrow> MEntry \<Rightarrow> string list" where
  "catPaths i e = (if i = 0 then config_paths e else if i = 1 then cache_paths e
                   else data_paths e)"

text \<open>
  The test that makes the discovery loop skip a directory, and what the loop writes to
  the entry of a directory it does not skip.
\<close>

definition excluded :: "Env \<Rightarrow> string \<Rightarrow> bool" where
  "excluded env dirpath = (excludePattern env \<noteq> [] \<and> excludeMatch env dirpath)"

definition setCategory :: "nat \<Rightarrow> string \<Rightarrow> qint64 \<Rightarrow> MEntry \<Rightarrow> MEntry" where
  "setCategory i dirpath sz e =
     (if i = 0 then e\<lparr>config_paths := config_paths e @ [dirpath], config_size := sz\<rparr>
      else if i = 1 then e\<lparr>cache_paths := cache_paths e @ [dirpath], cache_size := sz\<rparr>
      else e\<lparr>data_paths := data_paths e @ [dirpath], data_size := sz\<rparr>)"

text \<open>
  From one disk to a later one: one node per path stays so, a path that is gone or can
  be deleted stays so, and a path that is gone stays gone.
\<close>

definition keeps :: "string \<Rightarrow> world \<Rightarrow> world \<Rightarrow> bool" where
  "keeps p w w' = (wellFormed (disk w) \<longrightarrow>
     wellFormed (disk w')
     \<and> (goneOrDeletable (disk w) p \<longrightarrow> goneOrDeletable (disk w') p)
     \<and> (map_of (disk w) p = None \<longrightarrow> map_of (disk w') p = None))"

text \<open>
  The cached size of category number \<open>i\<close>, and a category whose cached size is the sum
  of \<open>getSize\<close> over the paths recorded for it.
\<close>

definition catSize :: "nat \<Rightarrow> MEntry \<Rightarrow> qint64" where
  "catSize i e = (if i = 0 then config_size e else if i = 1 then cache_size e
                  else data_size e)"

definition exact :: "filesystem \<Rightarrow> nat \<Rightarrow> MEntry \<Rightarrow> bool" where
  "exact fs i e = (catSize i e = pathsSize fs (catPaths i e))"

text \<open>
  \<^verbatim>\<open>app_paths[i]\<close>, and the names of the directories that pass \<open>i\<close> of the discovery loop
  merges into the registry: the \<^verbatim>\<open>harbour-*\<close> directories under that root that the
  exclusion test lets through.
\<close>

definition searchRoot :: "Env \<Rightarrow> nat \<Rightarrow> string" where
  "searchRoot env i =
     [genericConfigLocation env, genericCacheLocation env, genericDataLocation env] ! i"

definition mergedNames :: "Env \<Rightarrow> filesystem \<Rightarrow> nat \<Rightarrow> string list" where
  "mergedNames env fs i =
     map snd (filter (\<lambda>(dirpath, dirname). \<not> excluded env dirpath)
                (harbourDirs fs (searchRoot env i)))"

text \<open>
  What holds of the registry while \<open>resetImpl\<close> builds it. \<open>M k\<close> is the set of names
  merged into category \<open>k\<close> so far. A merged category holds the size of the directory
  merged last, which is its last path; every other category is exact; a name with no
  record has not been merged.
\<close>

definition rescanInv ::
  "filesystem \<Rightarrow> (nat \<Rightarrow> string set) \<Rightarrow> (string \<times> MEntry) list \<Rightarrow> bool" where
  "rescanInv fs M entries =
     (\<forall>n. case map_of entries n of
            None \<Rightarrow> (\<forall>k<3. n \<notin> M k)
          | Some e \<Rightarrow>
              (\<forall>k<3. if n \<in> M k
                     then catPaths k e \<noteq> [] \<and> catSize k e = getSize fs (last (catPaths k e))
                     else exact fs k e))"

text \<open>
  Category \<open>i\<close> of a record once \<open>resetImpl\<close> has returned. If the discovery merged a
  directory into it, the cached size is the size of that directory alone, so the category
  is exact precisely when the paths recorded before the directory hold nothing. Otherwise
  it is exact.
\<close>

definition afterRescan :: "filesystem \<Rightarrow> bool \<Rightarrow> nat \<Rightarrow> MEntry \<Rightarrow> bool" where
  "afterRescan fs merged i e =
     (if merged
      then catPaths i e \<noteq> [] \<and> catSize i e = getSize fs (last (catPaths i e))
           \<and> (exact fs i e \<longleftrightarrow> pathsSize fs (butlast (catPaths i e)) = 0)
      else exact fs i e)"

text \<open>
  Two paths are apart when they differ and neither lies below the other: removing one
  cannot touch the other.
\<close>

definition apart :: "string \<Rightarrow> string \<Rightarrow> bool" where
  "apart p q = (p \<noteq> q \<and> \<not> below p q \<and> \<not> below q p)"

text \<open>
  The paths \<open>clearEntry\<close> hands to \<open>removePaths\<close> for an entry: those of every requested
  category whose cached size is positive. \<open>unusedBatch\<close> collects them over the records
  that \<open>deleteUnusedDataImpl\<close> does not skip.
\<close>

definition batch :: "DataTypes \<Rightarrow> MEntry \<Rightarrow> string list" where
  "batch types e =
     (if ConfigData \<in> types \<and> 0 <s config_size e then config_paths e else [])
     @ (if CacheData \<in> types \<and> 0 <s cache_size e then cache_paths e else [])
     @ (if LocalData \<in> types \<and> 0 <s data_size e then data_paths e else [])"

definition unusedBatch :: "DataTypes \<Rightarrow> (string \<times> MEntry) list \<Rightarrow> string list" where
  "unusedBatch types entries =
     concat (map (\<lambda>(n, e). if installed e then [] else batch types e) entries)"

text \<open>
  A record \<open>e\<close> and what a deletion turned it into, \<open>e'\<close>, between the disk \<open>fs\<close> before and
  the disk \<open>fs'\<close> after: the paths are the same; each size is what it was or 0; and where
  the size has changed, every recorded path that was gone or could be deleted on \<open>fs\<close> is
  gone on \<open>fs'\<close>.
\<close>

definition wiped :: "filesystem \<Rightarrow> filesystem \<Rightarrow> MEntry \<Rightarrow> MEntry \<Rightarrow> bool" where
  "wiped fs fs' e e' =
     (\<forall>i<3. catPaths i e' = catPaths i e
        \<and> (catSize i e' = catSize i e \<or> catSize i e' = 0)
        \<and> (catSize i e' \<noteq> catSize i e \<longrightarrow>
             (\<forall>p \<in> set (catPaths i e). goneOrDeletable fs p \<longrightarrow> map_of fs' p = None)))"

text \<open>
  Category \<open>i\<close> of a record once a deletion has returned; \<open>e\<close> is the record before, \<open>e'\<close>
  the record after, \<open>attempted\<close> the paths the deletion handed to \<open>removePaths\<close>. The path
  list is what it was. The cached size is what it was, or 0 when the category was
  cleared; it is never measured again, so the category is exact afterwards precisely when
  the recorded paths now hold that number of bytes. A cleared category is exact when each
  of its paths was gone or could be deleted on the disk before. A category that kept its
  size and was exact before is exact when each of its paths is apart from every attempted
  path.
\<close>

definition afterDeletion ::
  "filesystem \<Rightarrow> filesystem \<Rightarrow> string list \<Rightarrow> nat \<Rightarrow> MEntry \<Rightarrow> MEntry \<Rightarrow> bool" where
  "afterDeletion fs fs' attempted i e e' =
     (catPaths i e' = catPaths i e
      \<and> (catSize i e' = catSize i e \<or> catSize i e' = 0)
      \<and> (exact fs' i e' \<longleftrightarrow>
           pathsSize fs' (catPaths i e) = (if catSize i e' = catSize i e then catSize i e else 0))
      \<and> (catSize i e' \<noteq> catSize i e \<and> list_all (goneOrDeletable fs) (catPaths i e)
           \<longrightarrow> exact fs' i e')
      \<and> (catSize i e' = catSize i e \<and> exact fs i e
           \<and> list_all (\<lambda>p. list_all (apart p) attempted) (catPaths i e)
           \<longrightarrow> exact fs' i e'))"

section \<open>Sample runs\<close>

text \<open>
  The scenario of the specification: one known application \<^verbatim>\<open>app.x\<close> with 100 bytes of
  configuration, one directory \<^verbatim>\<open>harbour-foo\<close> with 50 bytes under the cache root, no
  \<^verbatim>\<open>.desktop\<close> file.
\<close>

definition scenarioDisk :: filesystem where
  "scenarioDisk = [(''/fake'', Dir), (''/fake/config'', Dir),
     (''/fake/config/app.x'', File 100 False []),
     (''/cache'', Dir), (''/cache/harbour-foo'', Dir),
     (''/cache/harbour-foo/blob'', File 50 False [])]"

definition scenarioEnv :: Env where
  "scenarioEnv = \<lparr> knownApps = [\<lparr> app_name = ''app.x'', app_config = [''/fake/config/app.x''],
        app_cache = [], app_local_data = [] \<rparr>],
     excludePattern = ''/fake/config/app.x'',
     excludeMatch = (\<lambda>p. prefix ''/fake/config/app.x'' p),
     genericConfigLocation = ''/config'', genericCacheLocation = ''/cache'',
     genericDataLocation = ''/data'',
     applicationsLocations = [''/usr/share/applications''],
     entryExists = existsByPaths \<rparr>"

definition scenario :: world where
  "scenario = resetImpl scenarioEnv (newModel scenarioDisk)"

text \<open>
  A known application \<^verbatim>\<open>harbour-bar\<close> whose configuration is the file \<^verbatim>\<open>bar.conf\<close>,
  next to a directory \<^verbatim>\<open>harbour-bar\<close> under the configuration root that the exclusion
  pattern does not cover.
\<close>

definition mergeDisk :: filesystem where
  "mergeDisk = [(''/home'', Dir), (''/home/.config'', Dir),
     (''/home/.config/bar.conf'', File 10 False []),
     (''/home/.config/harbour-bar'', Dir),
     (''/home/.config/harbour-bar/settings'', File 5 False [])]"

definition mergeEnv :: Env where
  "mergeEnv = \<lparr> knownApps = [\<lparr> app_name = ''harbour-bar'',
        app_config = [''/home/.config/bar.conf''], app_cache = [], app_local_data = [] \<rparr>],
     excludePattern = ''/home/.config/bar.conf'',
     excludeMatch = (\<lambda>p. prefix ''/home/.config/bar.conf'' p),
     genericConfigLocation = ''/home/.config'', genericCacheLocation = ''/home/.cache'',
     genericDataLocation = ''/home/.local/share'',
     applicationsLocations = [''/usr/share/applications''],
     entryExists = existsByPaths \<rparr>"

text \<open>
  No known application; a directory \<^verbatim>\<open>harbour-foo\<close> under the configuration root with
  one file that can be unlinked and one that cannot.
\<close>

definition partialDisk :: filesystem where
  "partialDisk = [(''/cfg'', Dir), (''/cfg/harbour-foo'', Dir),
     (''/cfg/harbour-foo/x'', File 10 False []),
     (''/cfg/harbour-foo/y'', File 20 True [])]"

definition plainEnv :: Env where
  "plainEnv = \<lparr> knownApps = [], excludePattern = [], excludeMatch = (\<lambda>p. False),
     genericConfigLocation = ''/cfg'', genericCacheLocation = ''/cache'',
     genericDataLocation = ''/data'',
     applicationsLocations = [''/usr/share/applications''],
     entryExists = existsByPaths \<rparr>"

definition oneConfigFile :: MEntry where
  "oneConfigFile = defaultEntry\<lparr>config_size := 10, config_paths := [''/d/a'']\<rparr>"

definition theEntry :: "world \<Rightarrow> string \<Rightarrow> MEntry" where
  "theEntry w nm = (case map_of (m_entries w) nm of Some e \<Rightarrow> e | None \<Rightarrow> defaultEntry)"

definition fullDisk :: filesystem where
  "fullDisk = [(''/d'', Dir), (''/d/a'', File 10 False []),
     (''/d/b'', File 20 False []), (''/d/c'', File 30 False [])]"

definition fullEntry :: MEntry where
  "fullEntry = defaultEntry\<lparr> config_size := 10, config_paths := [''/d/a''],
     cache_size := 20, cache_paths := [''/d/b''], data_size := 30, data_paths := [''/d/c''] \<rparr>"

definition allTypes :: DataTypes where
  "allTypes = {ConfigData, CacheData, LocalData}"

text \<open>
  Two directories under the configuration root; a \<^verbatim>\<open>.desktop\<close> file exists for
  \<^verbatim>\<open>harbour-kept\<close> only.
\<close>

definition installedDisk :: filesystem where
  "installedDisk = [(''/cfg'', Dir), (''/cfg/harbour-kept'', Dir),
     (''/cfg/harbour-kept/conf'', File 7 False []),
     (''/cfg/harbour-gone'', Dir), (''/cfg/harbour-gone/conf'', File 9 False []),
     (''/usr/share/applications'', Dir),
     (''/usr/share/applications/harbour-kept.desktop'',
        File 120 False [(''Desktop Entry/Name'', ''Kept'')])]"

definition installedWorld :: world where
  "installedWorld = resetImpl plainEnv (newModel installedDisk)"

text \<open>
  A known application \<^verbatim>\<open>harbour-baz\<close> with a cache file and no configuration path, next
  to a directory \<^verbatim>\<open>harbour-baz\<close> under the configuration root.
\<close>

definition harmlessDisk :: filesystem where
  "harmlessDisk = [(''/home'', Dir), (''/home/.cache'', Dir),
     (''/home/.cache/baz.db'', File 7 False []),
     (''/home/.config'', Dir), (''/home/.config/harbour-baz'', Dir),
     (''/home/.config/harbour-baz/settings'', File 5 False [])]"

definition harmlessEnv :: Env where
  "harmlessEnv = \<lparr> knownApps = [\<lparr> app_name = ''harbour-baz'', app_config = [],
        app_cache = [''/home/.cache/baz.db''], app_local_data = [] \<rparr>],
     excludePattern = ''/home/.cache/baz.db'',
     excludeMatch = (\<lambda>p. prefix ''/home/.cache/baz.db'' p),
     genericConfigLocation = ''/home/.config'', genericCacheLocation = ''/home/.cache'',
     genericDataLocation = ''/home/.local/share'',
     applicationsLocations = [''/usr/share/applications''],
     entryExists = existsByPaths \<rparr>"

text \<open>
  An entry whose configuration is two files of \<open>demoDisk\<close>, one that can be unlinked and
  one that cannot.
\<close>

definition twoConfigFiles :: MEntry where
  "twoConfigFiles = defaultEntry\<lparr>config_size := 30, config_paths := [''/d/a'', ''/d/b'']\<rparr>"

section \<open>Facts about the disk\<close>


lemma map_of_filter_None: "map_of fs k = None \<Longrightarrow> map_of (filter P fs) k = None"
  by (auto simp: map_of_eq_None_iff)

lemma map_of_filter_distinct:
  "distinct (map fst fs) \<Longrightarrow>
   map_of (filter P fs) k =
     (case map_of fs k of None \<Rightarrow> None | Some n \<Rightarrow> if P (k, n) then Some n else None)"
proof (induction fs)
  case Nil
  then show ?case by simp
next
  case (Cons a fs)
  obtain k' n' where a: "a = (k', n')" by (cases a)
  from Cons.prems have nk: "k' \<notin> fst ` set fs" and d: "distinct (map fst fs)"
    by (simp_all add: a)
  from nk have none: "map_of fs k' = None" by (simp add: map_of_eq_None_iff)
  show ?case
  proof (cases "k = k'")
    case True
    with none show ?thesis by (simp add: a Cons.IH [OF d] map_of_filter_None)
  next
    case False
    then show ?thesis by (simp add: a Cons.IH [OF d])
  qed
qed

lemma removePath_filter: "\<exists>Q. snd (removePath fs p) = filter Q fs"
  unfolding removePath_def removeRecursively_def removeFile_def
  by (auto split: option.splits node.splits intro: exI [of _ "\<lambda>_. True"])

lemma wellFormed_filter: "wellFormed fs \<Longrightarrow> wellFormed (filter Q fs)"
  by (simp add: wellFormed_def distinct_map_filter)

lemma wellFormed_removePath: "wellFormed fs \<Longrightarrow> wellFormed (snd (removePath fs p))"
  using removePath_filter [of fs p] wellFormed_filter by auto

lemma lockedBelow_filter: "lockedBelow (filter Q fs) k \<Longrightarrow> lockedBelow fs k"
  by (auto simp: lockedBelow_def list_ex_iff)

lemma goneOrDeletable_filter:
  assumes "wellFormed fs" and "goneOrDeletable fs p"
  shows "goneOrDeletable (filter Q fs) p"
proof (cases "map_of fs p")
  case None
  then show ?thesis by (simp add: goneOrDeletable_def map_of_filter_None)
next
  case (Some n)
  with assms(2) have del: "deletable fs p" by (simp add: goneOrDeletable_def)
  have m: "map_of (filter Q fs) p = (if Q (p, n) then Some n else None)"
    using assms(1) Some by (simp add: wellFormed_def map_of_filter_distinct)
  show ?thesis
  proof (cases "Q (p, n)")
    case False
    with m show ?thesis by (simp add: goneOrDeletable_def)
  next
    case True
    with m have m': "map_of (filter Q fs) p = Some n" by simp
    show ?thesis
    proof (cases n)
      case (File s l i)
      with del Some m' show ?thesis by (simp add: goneOrDeletable_def deletable_def)
    next
      case Dir
      with del Some have "\<not> lockedBelow fs p" by (simp add: deletable_def)
      then have "\<not> lockedBelow (filter Q fs) p" using lockedBelow_filter by blast
      with Dir m' show ?thesis by (simp add: goneOrDeletable_def deletable_def)
    qed
  qed
qed

lemma removePath_deletable:
  assumes "wellFormed fs" and "deletable fs p"
  shows "fst (removePath fs p) \<and> map_of (snd (removePath fs p)) p = None"
proof (cases "map_of fs p")
  case None
  with assms(2) show ?thesis by (simp add: deletable_def)
next
  case (Some n)
  show ?thesis
  proof (cases n)
    case (File s l i)
    with Some assms(2) have "\<not> l" by (simp add: deletable_def)
    with Some File show ?thesis
      by (simp add: removePath_def isDir_def isFile_def removeFile_def map_of_eq_None_iff image_iff)
  next
    case Dir
    with Some assms(2) have nl: "\<not> lockedBelow fs p" by (simp add: deletable_def)
    have "map_of (filter (survives fs p) fs) p = None"
      using assms(1) Some Dir nl
      by (simp add: wellFormed_def map_of_filter_distinct survives_def)
    with Some Dir nl show ?thesis
      by (simp add: removePath_def isDir_def removeRecursively_def)
  qed
qed

section \<open>getSize on a missing path\<close>

text \<open>
  C9. For a path that does not exist on the disk, \<open>getSize\<close> returns 0; it has no error
  result and does not change the disk, so asking any number of times gives 0 each time.
\<close>

theorem getSize_missing:
  "\<not> pathExists fs p \<Longrightarrow>
   getSize fs p = 0 \<and> map (getSize fs) (replicate n p) = replicate n 0"
  by (simp add: pathExists_def getSize_def isDir_def isFile_def)

theorem getSize_missing_witness:
  "\<not> pathExists demoDisk ''/d/zz'' \<and> getSize demoDisk ''/d/zz'' = 0
   \<and> map (getSize demoDisk) (replicate 3 ''/d/zz'') = replicate 3 0"
  using getSize_missing [of demoDisk "''/d/zz''" 3]
  by (simp add: pathExists_def demoDisk_def)

section \<open>removePaths\<close>

lemma removeLoop_gone:
  "map_of (disk w) p = None \<Longrightarrow> map_of (disk (snd (removeLoop ps res w))) p = None"
proof (induction ps arbitrary: res w)
  case Nil
  then show ?case by simp
next
  case (Cons q qs)
  obtain Q where Q: "snd (removePath (disk w) q) = filter Q (disk w)"
    using removePath_filter by blast
  have g: "map_of (filter Q (disk w)) p = None"
    using Cons.prems by (rule map_of_filter_None)
  show ?case
    using Q g by (simp add: Let_def split_beta Cons.IH emit_def)
qed

lemma removeLoop_isolated:
  "wellFormed (disk w) \<Longrightarrow> p \<in> set ps \<Longrightarrow> goneOrDeletable (disk w) p \<Longrightarrow>
   map_of (disk (snd (removeLoop ps res w))) p = None"
proof (induction ps arbitrary: res w)
  case Nil
  then show ?case by simp
next
  case (Cons q qs)
  obtain Q where Q: "snd (removePath (disk w) q) = filter Q (disk w)"
    using removePath_filter by blast
  let ?fs = "filter Q (disk w)"
  have wf: "wellFormed ?fs" using Cons.prems(1) by (rule wellFormed_filter)
  have gd: "goneOrDeletable ?fs p" using Cons.prems(1,3) by (rule goneOrDeletable_filter)
  have "map_of (disk (snd (removeLoop qs r v))) p = None" if v: "disk v = ?fs"
    for r and v :: world
  proof (cases "p = q")
    case False
    with Cons.prems(2) have "p \<in> set qs" by simp
    with wf gd v show ?thesis by (intro Cons.IH) simp_all
  next
    case True
    have "map_of ?fs p = None"
    proof (cases "map_of (disk w) p")
      case None
      then show ?thesis by (rule map_of_filter_None)
    next
      case (Some n)
      with Cons.prems(3) have "deletable (disk w) p" by (simp add: goneOrDeletable_def)
      with Cons.prems(1) True Q show ?thesis using removePath_deletable by metis
    qed
    with v show ?thesis by (intro removeLoop_gone) simp
  qed
  then show ?case
    using Q by (simp add: Let_def split_beta emit_def)
qed

lemma removeLoop_attempts:
  "removeLoop ps res w =
     (res + sum_list (map (fst \<circ> snd) (filter (snd \<circ> snd) (attempts (disk w) ps))),
      w\<lparr>disk := foldl (\<lambda>fs p. snd (removePath fs p)) (disk w) ps,
        emitted := emitted w @
          map (DeletionError \<circ> fst) (filter (\<lambda>a. \<not> snd (snd a)) (attempts (disk w) ps))\<rparr>)"
proof (induction ps arbitrary: res w)
  case Nil
  then show ?case by simp
next
  case (Cons q qs)
  show ?case
    by (simp add: Let_def split_beta Cons.IH emit_def add.assoc)
qed


lemma removePaths_loop: "[] \<notin> set paths \<Longrightarrow> removePaths w paths = removeLoop paths 0 w"
  by (simp add: removePaths_def list_ex_iff)

text \<open>
  C4. A batch that holds an empty path is rejected as a whole: \<open>removePaths\<close> returns 0
  and leaves the disk, the object and the signals sent as they were, whatever the other
  paths are.
\<close>

theorem removePaths_empty_path:
  "[] \<in> set paths \<Longrightarrow> removePaths w paths = (0, w)"
  by (auto simp: removePaths_def list_ex_iff)

theorem removePaths_empty_path_witness:
  "[] \<in> set [''/d/a'', [], ''/d/c'']
   \<and> removePaths (newModel demoDisk) [''/d/a'', [], ''/d/c''] = (0, newModel demoDisk)"
  using removePaths_empty_path [of "[''/d/a'', [], ''/d/c'']" "newModel demoDisk"]
  by simp



section \<open>Frame and loop facts\<close>

lemma clearing_fields [simp]:
  "changedOf (ch, e, d, w) = ch" "entryOf (ch, e, d, w) = e"
  "deletedOf (ch, e, d, w) = d" "worldOf (ch, e, d, w) = w"
  by (simp_all add: changedOf_def entryOf_def deletedOf_def worldOf_def)

lemma emit_fields [simp]:
  "m_names (emit s w) = m_names w" "m_entries (emit s w) = m_entries w"
  "disk (emit s w) = disk w" "emitted (emit s w) = emitted w @ [s]"
  by (simp_all add: emit_def)

lemma setBusy_fields [simp]:
  "m_names (setBusy b w) = m_names w" "m_entries (setBusy b w) = m_entries w"
  "disk (setBusy b w) = disk w"
  by (simp_all add: setBusy_def)

lemma removePaths_fields [simp]:
  "m_names (snd (removePaths w ps)) = m_names w"
  "m_entries (snd (removePaths w ps)) = m_entries w"
  by (simp_all add: removePaths_def removeLoop_attempts)

lemma fold_totalStep_fields [simp]:
  "m_names (fold totalStep es w) = m_names w"
  "m_entries (fold totalStep es w) = m_entries w"
  "disk (fold totalStep es w) = disk w"
  by (induction es arbitrary: w; simp add: totalStep_def Let_def)+

lemma calculateTotal_fields [simp]:
  "m_names (calculateTotal w) = m_names w" "m_entries (calculateTotal w) = m_entries w"
  "disk (calculateTotal w) = disk w"
  by (simp_all add: calculateTotal_def)

lemma sizesOnly_refl [simp]: "sizesOnly e e"
  by (simp add: sizesOnly_def)

lemma sizesOnly_trans: "sizesOnly a b \<Longrightarrow> sizesOnly b c \<Longrightarrow> sizesOnly a c"
  by (simp add: sizesOnly_def)

lemma clearConfig_frame:
  "m_names (worldOf (clearConfig types c)) = m_names (worldOf c)
   \<and> m_entries (worldOf (clearConfig types c)) = m_entries (worldOf c)
   \<and> sizesOnly (entryOf c) (entryOf (clearConfig types c))"
  by (cases c) (simp add: clearConfig_def worldOf_def entryOf_def split_beta Let_def sizesOnly_def)

lemma clearCache_frame:
  "m_names (worldOf (clearCache types c)) = m_names (worldOf c)
   \<and> m_entries (worldOf (clearCache types c)) = m_entries (worldOf c)
   \<and> sizesOnly (entryOf c) (entryOf (clearCache types c))"
  by (cases c) (simp add: clearCache_def worldOf_def entryOf_def split_beta Let_def sizesOnly_def)

lemma clearLocal_frame:
  "m_names (worldOf (clearLocal types c)) = m_names (worldOf c)
   \<and> m_entries (worldOf (clearLocal types c)) = m_entries (worldOf c)
   \<and> sizesOnly (entryOf c) (entryOf (clearLocal types c))"
  by (cases c) (simp add: clearLocal_def worldOf_def entryOf_def split_beta Let_def sizesOnly_def)

lemma clearEntry_frame:
  "m_names (worldOf (clearEntry w e d types)) = m_names w"
  "m_entries (worldOf (clearEntry w e d types)) = m_entries w"
  "sizesOnly e (entryOf (clearEntry w e d types))"
proof -
  let ?c0 = "([], e, d, w) :: clearing"
  let ?c1 = "clearConfig types ?c0"
  let ?c2 = "clearCache types ?c1"
  have w0: "worldOf ?c0 = w" and e0: "entryOf ?c0 = e"
    by (simp_all add: worldOf_def entryOf_def)
  show "m_names (worldOf (clearEntry w e d types)) = m_names w"
    using clearConfig_frame [of types ?c0] clearCache_frame [of types ?c1]
      clearLocal_frame [of types ?c2] w0
    by (simp add: clearEntry_def)
  show "m_entries (worldOf (clearEntry w e d types)) = m_entries w"
    using clearConfig_frame [of types ?c0] clearCache_frame [of types ?c1]
      clearLocal_frame [of types ?c2] w0
    by (simp add: clearEntry_def)
  show "sizesOnly e (entryOf (clearEntry w e d types))"
    using clearConfig_frame [of types ?c0] clearCache_frame [of types ?c1]
      clearLocal_frame [of types ?c2] e0
    by (simp add: clearEntry_def sizesOnly_def)
qed

lemma removeRow_fields [simp]:
  "m_names (removeRow nm es w) = remove1 nm (m_names w)"
  "m_entries (removeRow nm es w) = es"
  "disk (removeRow nm es w) = disk w"
  by (simp_all add: removeRow_def emit_def)

lemma clearEntry_tuple:
  "clearEntry w e d types = (changedOf (clearEntry w e d types), entryOf (clearEntry w e d types),
     deletedOf (clearEntry w e d types), worldOf (clearEntry w e d types))"
  by (simp add: changedOf_def entryOf_def deletedOf_def worldOf_def split_beta)

lemma unusedLoop_Cons:
  "unusedLoop env types visited ((nm, e) # rest) d w =
     (if installed e then unusedLoop env types (visited @ [(nm, e)]) rest d w
      else if \<not> entryExists env (entryOf (clearEntry w e d types))
      then unusedLoop env types visited rest (deletedOf (clearEntry w e d types))
             (removeRow nm (visited @ rest)
                ((worldOf (clearEntry w e d types))
                   \<lparr>m_entries := visited @ (nm, entryOf (clearEntry w e d types)) # rest\<rparr>))
      else unusedLoop env types (visited @ [(nm, entryOf (clearEntry w e d types))]) rest
             (deletedOf (clearEntry w e d types))
             (emit (DataChanged (indexOf (m_names (worldOf (clearEntry w e d types))) nm)
                      (changedOf (clearEntry w e d types)))
                ((worldOf (clearEntry w e d types))
                   \<lparr>m_entries := visited @ (nm, entryOf (clearEntry w e d types)) # rest\<rparr>)))"
  by (simp add: split_beta changedOf_def entryOf_def deletedOf_def worldOf_def Let_def)

lemma unusedLoop_pruned:
  "m_entries w = visited @ todo \<Longrightarrow>
   \<exists>R. m_entries (snd (unusedLoop env types visited todo d w)) = visited @ R
       \<and> pruned (entryExists env) todo R"
proof (induction todo arbitrary: visited d w)
  case Nil
  then show ?case by (auto intro: pruned_Nil)
next
  case (Cons a rest)
  obtain nm e where a: "a = (nm, e)" by (cases a)
  show ?case
  proof (cases "installed e")
    case True
    have "m_entries w = (visited @ [(nm, e)]) @ rest"
      using Cons.prems by (simp add: a)
    from Cons.IH [OF this, of d] obtain R where
      R: "m_entries (snd (unusedLoop env types (visited @ [(nm, e)]) rest d w))
            = (visited @ [(nm, e)]) @ R" "pruned (entryExists env) rest R"
      by blast
    from R(2) True have "pruned (entryExists env) ((nm, e) # rest) ((nm, e) # R)"
      by (rule pruned_installed)
    with R(1) True show ?thesis by (auto simp: a unusedLoop_Cons simp del: unusedLoop.simps)
  next
    case False
    let ?r = "clearEntry w e d types"
    let ?w2 = "(worldOf ?r)\<lparr>m_entries := visited @ (nm, entryOf ?r) # rest\<rparr>"
    have so: "sizesOnly e (entryOf ?r)" by (rule clearEntry_frame)
    show ?thesis
    proof (cases "entryExists env (entryOf ?r)")
      case True
      let ?w3 = "emit (DataChanged (indexOf (m_names ?w2) nm) (changedOf ?r)) ?w2"
      have "m_entries ?w3 = (visited @ [(nm, entryOf ?r)]) @ rest" by simp
      from Cons.IH [OF this, of "deletedOf ?r"] obtain R where
        R: "m_entries (snd (unusedLoop env types (visited @ [(nm, entryOf ?r)]) rest
              (deletedOf ?r) ?w3)) = (visited @ [(nm, entryOf ?r)]) @ R"
           "pruned (entryExists env) rest R"
        by blast
      from R(2) False so True
      have "pruned (entryExists env) ((nm, e) # rest) ((nm, entryOf ?r) # R)"
        by (rule pruned_kept)
      moreover have "unusedLoop env types visited (a # rest) d w
          = unusedLoop env types (visited @ [(nm, entryOf ?r)]) rest (deletedOf ?r) ?w3"
        using False True by (simp add: a unusedLoop_Cons del: unusedLoop.simps)
      ultimately show ?thesis using R(1) by (auto simp: a)
    next
      case nex: False
      let ?w3 = "removeRow nm (visited @ rest) ?w2"
      have "m_entries ?w3 = visited @ rest" by simp
      from Cons.IH [OF this, of "deletedOf ?r"] obtain R where
        R: "m_entries (snd (unusedLoop env types visited rest (deletedOf ?r) ?w3)) = visited @ R"
           "pruned (entryExists env) rest R"
        by blast
      from R(2) False have "pruned (entryExists env) ((nm, e) # rest) R"
        by (rule pruned_erased)
      moreover have "unusedLoop env types visited (a # rest) d w
          = unusedLoop env types visited rest (deletedOf ?r) ?w3"
        using False nex by (simp add: a unusedLoop_Cons del: unusedLoop.simps)
      ultimately show ?thesis using R(1) by (auto simp: a)
    qed
  qed
qed

lemma pruned_member:
  "pruned ex xs ys \<Longrightarrow> (n, e') \<in> set ys \<Longrightarrow>
   \<exists>e. (n, e) \<in> set xs \<and> sizesOnly e e' \<and> (installed e \<longrightarrow> e' = e)
       \<and> (\<not> installed e \<longrightarrow> ex e')"
proof (induction rule: pruned.induct)
  case pruned_Nil
  then show ?case by simp
next
  case (pruned_installed xs ys e m)
  then show ?case by auto
next
  case (pruned_kept xs ys e e'' m)
  then show ?case by auto
next
  case (pruned_erased xs ys e m)
  then show ?case by auto
qed

lemma pruned_keys: "pruned ex xs ys \<Longrightarrow> fst ` set ys \<subseteq> fst ` set xs"
  by (induction rule: pruned.induct) auto

lemma pruned_distinct:
  "pruned ex xs ys \<Longrightarrow> distinct (map fst xs) \<Longrightarrow> distinct (map fst ys)"
proof (induction rule: pruned.induct)
  case pruned_Nil
  then show ?case by simp
next
  case (pruned_installed xs ys e n)
  then show ?case using pruned_keys [of ex xs ys] by auto
next
  case (pruned_kept xs ys e e' n)
  then show ?case using pruned_keys [of ex xs ys] by auto
next
  case (pruned_erased xs ys e n)
  then show ?case by simp
qed

lemma pruned_installed_kept:
  "pruned ex xs ys \<Longrightarrow> (n, e) \<in> set xs \<Longrightarrow> installed e \<Longrightarrow> (n, e) \<in> set ys"
  by (induction rule: pruned.induct) auto

section \<open>The aggregate totals\<close>

text \<open>
  C1. After a rescan of the specification's scenario the rows hold 100 bytes of
  configuration and no local data, and one row each is counted for the cache and for the
  unused applications as claimed; but \<open>totalConfigSize\<close> is 0, the sum of the rows'
  local-data sizes, and \<open>totalLocaldataSize\<close> is 100, the sum of their configuration
  sizes: \<open>calculateTotal\<close> adds \<^verbatim>\<open>e.config_size\<close> to \<^verbatim>\<open>m_total_localdata_size\<close> and
  \<^verbatim>\<open>e.data_size\<close> to \<^verbatim>\<open>m_total_config_size\<close>.
\<close>

theorem rescan_totals_swapped:
  "map fst (m_entries scenario) = [''app.x'', ''harbour-foo'']
   \<and> sum_list (map (config_size \<circ> snd) (m_entries scenario)) = 100
   \<and> sum_list (map (data_size \<circ> snd) (m_entries scenario)) = 0
   \<and> totalConfigSize scenario = 0
   \<and> totalLocaldataSize scenario = 100
   \<and> totalCacheSize scenario = sum_list (map (cache_size \<circ> snd) (m_entries scenario))
   \<and> unusedAppsCount scenario = 2"
  unfolding scenario_def by code_simp

section \<open>Deleting under an unknown name\<close>

text \<open>
  C7. When the name is not a key of \<open>m_entries\<close>, \<open>deleteDataImpl\<close> returns at once:
  the object, the disk and the signals sent are what they were. The model has no
  exception; the only trace in the source is a log line.
\<close>

theorem deleteDataImpl_unknown_name:
  "map_of (m_entries w) nm = None \<Longrightarrow> deleteDataImpl env w nm types = w"
  by (simp add: deleteDataImpl_def)

theorem deleteDataImpl_unknown_name_witness:
  "map_of (m_entries scenario) ''harbour-bar'' = None
   \<and> deleteDataImpl scenarioEnv scenario ''harbour-bar'' {ConfigData, CacheData, LocalData}
      = scenario"
proof -
  have n: "map_of (m_entries scenario) ''harbour-bar'' = None"
    unfolding scenario_def by code_simp
  show ?thesis
    using deleteDataImpl_unknown_name [OF n, of scenarioEnv "{ConfigData, CacheData, LocalData}"] n
    by simp
qed

section \<open>Reading rows\<close>

text \<open>
  C10, as stated, fails: on a valid index whose row is not below the number of rows,
  \<open>data\<close> reads \<^verbatim>\<open>m_names[index.row()]\<close> before it looks at the role, so with an
  undefined role it does not return a null variant.
\<close>

theorem data_stale_row_counterexample:
  "isValid \<lparr>index_row = 0, index_column = 0, index_model = True\<rparr>
   \<and> data (newModel []) \<lparr>index_row = 0, index_column = 0, index_model = True\<rparr> None
       = Inl IndexOutOfRange"
  by (simp add: data_def isValid_def newModel_def)

text \<open>
  C10, amended. \<open>data\<close> returns a null variant for every invalid index, whatever the
  role, and for an undefined role on a valid index whose row is below the number of
  rows; \<open>rowCount\<close> is 0 for every valid parent.
\<close>

theorem data_rowCount_safe:
  "(\<not> isValid i \<longrightarrow> data w i role = Inr Null)
   \<and> (isValid i \<and> nat (index_row i) < length (m_names w) \<longrightarrow> data w i None = Inr Null)
   \<and> (isValid parent \<longrightarrow> rowCount w parent = 0)"
  by (simp add: data_def rowCount_def)

theorem data_rowCount_safe_witness:
  "\<not> isValid rootIndex \<and> data scenario rootIndex (Some NameRole) = Inr Null
   \<and> isValid \<lparr>index_row = 1, index_column = 0, index_model = True\<rparr>
   \<and> nat (index_row \<lparr>index_row = 1, index_column = 0, index_model = True\<rparr>)
        < length (m_names scenario)
   \<and> data scenario \<lparr>index_row = 1, index_column = 0, index_model = True\<rparr> None = Inr Null
   \<and> rowCount scenario \<lparr>index_row = 1, index_column = 0, index_model = True\<rparr> = 0"
proof -
  have a: "\<not> isValid rootIndex" by (simp add: isValid_def rootIndex_def)
  have b: "isValid \<lparr>index_row = 1, index_column = 0, index_model = True\<rparr>"
    by (simp add: isValid_def)
  have c: "nat (index_row \<lparr>index_row = 1, index_column = 0, index_model = True\<rparr>)
        < length (m_names scenario)"
    unfolding scenario_def by code_simp
  show ?thesis
    using a b c
      data_rowCount_safe [of rootIndex scenario "Some NameRole"
        "\<lparr>index_row = 1, index_column = 0, index_model = True\<rparr>"]
      data_rowCount_safe [of "\<lparr>index_row = 1, index_column = 0, index_model = True\<rparr>" scenario
        None "\<lparr>index_row = 1, index_column = 0, index_model = True\<rparr>"]
    by simp
qed

section \<open>What clearEntry does to a category\<close>

lemma clearConfig_effect:
  "cache_size (entryOf (clearConfig types c)) = cache_size (entryOf c)"
  "data_size (entryOf (clearConfig types c)) = data_size (entryOf c)"
  "set (changedOf c) \<subseteq> set (changedOf (clearConfig types c))"
  "ConfigData \<in> types \<Longrightarrow> 0 <s config_size (entryOf c) \<Longrightarrow>
   0 <s fst (removePaths (worldOf c) (config_paths (entryOf c))) \<Longrightarrow>
   config_size (entryOf (clearConfig types c)) = 0
   \<and> ConfigSizeRole \<in> set (changedOf (clearConfig types c))"
  by (cases c; auto simp: clearConfig_def split_beta Let_def)+

lemma clearCache_effect:
  "config_size (entryOf (clearCache types c)) = config_size (entryOf c)"
  "data_size (entryOf (clearCache types c)) = data_size (entryOf c)"
  "set (changedOf c) \<subseteq> set (changedOf (clearCache types c))"
  "CacheData \<in> types \<Longrightarrow> 0 <s cache_size (entryOf c) \<Longrightarrow>
   0 <s fst (removePaths (worldOf c) (cache_paths (entryOf c))) \<Longrightarrow>
   cache_size (entryOf (clearCache types c)) = 0
   \<and> CacheSizeRole \<in> set (changedOf (clearCache types c))"
  by (cases c; auto simp: clearCache_def split_beta Let_def)+

lemma clearLocal_effect:
  "config_size (entryOf (clearLocal types c)) = config_size (entryOf c)"
  "cache_size (entryOf (clearLocal types c)) = cache_size (entryOf c)"
  "set (changedOf c) \<subseteq> set (changedOf (clearLocal types c))"
  "LocalData \<in> types \<Longrightarrow> 0 <s data_size (entryOf c) \<Longrightarrow>
   0 <s fst (removePaths (worldOf c) (data_paths (entryOf c))) \<Longrightarrow>
   data_size (entryOf (clearLocal types c)) = 0
   \<and> LocalDataSizeRole \<in> set (changedOf (clearLocal types c))"
  by (cases c; auto simp: clearLocal_def split_beta Let_def)+

text \<open>
  C3, as stated, fails: after a category is cleared its size is 0, but its paths are still
  recorded. Here the configuration of an entry is one file of 10 bytes, which
  \<open>removePaths\<close> reclaims.
\<close>

theorem clearEntry_keeps_paths_counterexample:
  "ConfigData \<in> {ConfigData} \<and> 0 <s config_size oneConfigFile
   \<and> 0 <s fst (removePaths (newModel demoDisk) (config_paths oneConfigFile))
   \<and> config_size (entryOf (clearEntry (newModel demoDisk) oneConfigFile 0 {ConfigData})) = 0
   \<and> config_paths (entryOf (clearEntry (newModel demoDisk) oneConfigFile 0 {ConfigData}))
       = [''/d/a'']"
  by code_simp

lemma clearEntry_effect:
  "config_paths (entryOf (clearEntry w e d types)) = config_paths e
   \<and> cache_paths (entryOf (clearEntry w e d types)) = cache_paths e
   \<and> data_paths (entryOf (clearEntry w e d types)) = data_paths e
   \<and> (ConfigData \<in> types \<and> 0 <s config_size e
        \<and> 0 <s fst (removePaths w (config_paths e))
      \<longrightarrow> config_size (entryOf (clearEntry w e d types)) = 0
        \<and> ConfigSizeRole \<in> set (changedOf (clearEntry w e d types)))
   \<and> (CacheData \<in> types \<and> 0 <s cache_size e
        \<and> 0 <s fst (removePaths (worldOf (clearConfig types ([], e, d, w))) (cache_paths e))
      \<longrightarrow> cache_size (entryOf (clearEntry w e d types)) = 0
        \<and> CacheSizeRole \<in> set (changedOf (clearEntry w e d types)))
   \<and> (LocalData \<in> types \<and> 0 <s data_size e
        \<and> 0 <s fst (removePaths
              (worldOf (clearCache types (clearConfig types ([], e, d, w)))) (data_paths e))
      \<longrightarrow> data_size (entryOf (clearEntry w e d types)) = 0
        \<and> LocalDataSizeRole \<in> set (changedOf (clearEntry w e d types)))"
proof -
  let ?c0 = "([], e, d, w) :: clearing"
  let ?c1 = "clearConfig types ?c0"
  let ?c2 = "clearCache types ?c1"
  let ?c3 = "clearLocal types ?c2"
  have r: "clearEntry w e d types = ?c3" by (simp add: clearEntry_def)
  have s1: "sizesOnly e (entryOf ?c1)" using clearConfig_frame [of types ?c0] by simp
  have s2: "sizesOnly (entryOf ?c1) (entryOf ?c2)" using clearCache_frame [of types ?c1] by simp
  have s3: "sizesOnly e (entryOf ?c3)" using clearEntry_frame(3) [of e w d types] by (simp add: r)
  have paths: "config_paths (entryOf ?c3) = config_paths e
      \<and> cache_paths (entryOf ?c3) = cache_paths e \<and> data_paths (entryOf ?c3) = data_paths e"
    using s3 by (simp add: sizesOnly_def)
  have cfg: "config_size (entryOf ?c3) = 0 \<and> ConfigSizeRole \<in> set (changedOf ?c3)"
    if "ConfigData \<in> types" "0 <s config_size e" "0 <s fst (removePaths w (config_paths e))"
  proof -
    have "config_size (entryOf ?c1) = 0 \<and> ConfigSizeRole \<in> set (changedOf ?c1)"
      using that clearConfig_effect(4) [of types ?c0] by simp
    moreover have "config_size (entryOf ?c3) = config_size (entryOf ?c1)"
      by (simp add: clearLocal_effect(1) clearCache_effect(1))
    moreover have "set (changedOf ?c1) \<subseteq> set (changedOf ?c3)"
      using clearCache_effect(3) [of ?c1 types] clearLocal_effect(3) [of ?c2 types] by blast
    ultimately show ?thesis by auto
  qed
  have cch: "cache_size (entryOf ?c3) = 0 \<and> CacheSizeRole \<in> set (changedOf ?c3)"
    if "CacheData \<in> types" "0 <s cache_size e"
       "0 <s fst (removePaths (worldOf ?c1) (cache_paths e))"
  proof -
    have "cache_size (entryOf ?c1) = cache_size e"
      using clearConfig_effect(1) [of types ?c0] by simp
    moreover have "cache_paths (entryOf ?c1) = cache_paths e"
      using s1 by (simp add: sizesOnly_def)
    ultimately have "cache_size (entryOf ?c2) = 0 \<and> CacheSizeRole \<in> set (changedOf ?c2)"
      using that clearCache_effect(4) [of types ?c1] by simp
    moreover have "cache_size (entryOf ?c3) = cache_size (entryOf ?c2)"
      by (simp add: clearLocal_effect(2))
    moreover have "set (changedOf ?c2) \<subseteq> set (changedOf ?c3)"
      using clearLocal_effect(3) [of ?c2 types] by blast
    ultimately show ?thesis by auto
  qed
  have loc: "data_size (entryOf ?c3) = 0 \<and> LocalDataSizeRole \<in> set (changedOf ?c3)"
    if "LocalData \<in> types" "0 <s data_size e"
       "0 <s fst (removePaths (worldOf ?c2) (data_paths e))"
  proof -
    have "data_size (entryOf ?c2) = data_size e"
      using clearConfig_effect(2) [of types ?c0] clearCache_effect(2) [of types ?c1] by simp
    moreover have "data_paths (entryOf ?c2) = data_paths e"
      using s1 s2 by (simp add: sizesOnly_def)
    ultimately show ?thesis
      using that clearLocal_effect(4) [of types ?c2] by simp
  qed
  show ?thesis
    unfolding r using paths cfg cch loc by blast
qed

text \<open>
  C3, amended. For each requested category whose size is positive, when \<open>removePaths\<close>
  reclaims more than 0 bytes from the category's paths on the disk the preceding blocks
  left, the category's cached size becomes 0 and its role is among the changed ones. The
  three path lists are what they were.
\<close>

theorem clearEntry_zeroes_size:
  "config_paths (entryOf (clearEntry w e d types)) = config_paths e
   \<and> cache_paths (entryOf (clearEntry w e d types)) = cache_paths e
   \<and> data_paths (entryOf (clearEntry w e d types)) = data_paths e
   \<and> (ConfigData \<in> types \<and> 0 <s config_size e
        \<and> 0 <s fst (removePaths w (config_paths e))
      \<longrightarrow> config_size (entryOf (clearEntry w e d types)) = 0
        \<and> ConfigSizeRole \<in> set (changedOf (clearEntry w e d types)))
   \<and> (CacheData \<in> types \<and> 0 <s cache_size e
        \<and> 0 <s fst (removePaths (worldOf (clearConfig types ([], e, d, w))) (cache_paths e))
      \<longrightarrow> cache_size (entryOf (clearEntry w e d types)) = 0
        \<and> CacheSizeRole \<in> set (changedOf (clearEntry w e d types)))
   \<and> (LocalData \<in> types \<and> 0 <s data_size e
        \<and> 0 <s fst (removePaths
              (worldOf (clearCache types (clearConfig types ([], e, d, w)))) (data_paths e))
      \<longrightarrow> data_size (entryOf (clearEntry w e d types)) = 0
        \<and> LocalDataSizeRole \<in> set (changedOf (clearEntry w e d types)))"
  by (rule clearEntry_effect)

theorem clearEntry_zeroes_size_witness:
  "ConfigData \<in> allTypes \<and> 0 <s config_size fullEntry
   \<and> 0 <s fst (removePaths (newModel fullDisk) (config_paths fullEntry))
   \<and> CacheData \<in> allTypes \<and> 0 <s cache_size fullEntry
   \<and> 0 <s fst (removePaths (worldOf (clearConfig allTypes ([], fullEntry, 0, newModel fullDisk)))
        (cache_paths fullEntry))
   \<and> LocalData \<in> allTypes \<and> 0 <s data_size fullEntry
   \<and> 0 <s fst (removePaths (worldOf (clearCache allTypes
          (clearConfig allTypes ([], fullEntry, 0, newModel fullDisk)))) (data_paths fullEntry))
   \<and> config_size (entryOf (clearEntry (newModel fullDisk) fullEntry 0 allTypes)) = 0
   \<and> cache_size (entryOf (clearEntry (newModel fullDisk) fullEntry 0 allTypes)) = 0
   \<and> data_size (entryOf (clearEntry (newModel fullDisk) fullEntry 0 allTypes)) = 0
   \<and> set (changedOf (clearEntry (newModel fullDisk) fullEntry 0 allTypes))
       = {ConfigSizeRole, CacheSizeRole, LocalDataSizeRole}
   \<and> config_paths (entryOf (clearEntry (newModel fullDisk) fullEntry 0 allTypes)) = [''/d/a'']"
proof -
  have a: "ConfigData \<in> allTypes \<and> 0 <s config_size fullEntry
     \<and> 0 <s fst (removePaths (newModel fullDisk) (config_paths fullEntry))"
    by code_simp
  have b: "CacheData \<in> allTypes \<and> 0 <s cache_size fullEntry
     \<and> 0 <s fst (removePaths (worldOf (clearConfig allTypes ([], fullEntry, 0, newModel fullDisk)))
        (cache_paths fullEntry))"
    by code_simp
  have c: "LocalData \<in> allTypes \<and> 0 <s data_size fullEntry
     \<and> 0 <s fst (removePaths (worldOf (clearCache allTypes
          (clearConfig allTypes ([], fullEntry, 0, newModel fullDisk)))) (data_paths fullEntry))"
    by code_simp
  have d: "set (changedOf (clearEntry (newModel fullDisk) fullEntry 0 allTypes))
       = {ConfigSizeRole, CacheSizeRole, LocalDataSizeRole}"
    by code_simp
  have e: "config_paths fullEntry = [''/d/a'']"
    by (simp add: fullEntry_def)
  show ?thesis
    using a b c d e clearEntry_zeroes_size [of "newModel fullDisk" fullEntry 0 allTypes]
    by simp
qed

section \<open>Deletion and the installed records\<close>

lemma deleteUnusedDataImpl_entries:
  "m_entries (deleteUnusedDataImpl env w types)
     = m_entries (snd (unusedLoop env types [] (m_entries w) 0 (setBusy True w)))"
  "m_names (deleteUnusedDataImpl env w types)
     = m_names (snd (unusedLoop env types [] (m_entries w) 0 (setBusy True w)))"
  by (simp_all add: deleteUnusedDataImpl_def split_beta Let_def)

lemma deleteUnusedDataImpl_pruned:
  "pruned (entryExists env) (m_entries w) (m_entries (deleteUnusedDataImpl env w types))"
proof -
  have "m_entries (setBusy True w) = [] @ m_entries w" by simp
  from unusedLoop_pruned [OF this, of env types 0]
  show ?thesis by (auto simp: deleteUnusedDataImpl_entries)
qed

lemma deleteDataImpl_known:
  assumes "map_of (m_entries w) nm = Some e"
  shows "m_entries (deleteDataImpl env w nm types) =
           (if \<not> entryExists env (entryOf (clearEntry (setBusy True w) e 0 types))
            then AList.delete nm (AList.update nm
                   (entryOf (clearEntry (setBusy True w) e 0 types)) (m_entries w))
            else AList.update nm (entryOf (clearEntry (setBusy True w) e 0 types)) (m_entries w))"
    and "m_names (deleteDataImpl env w nm types) =
           (if \<not> entryExists env (entryOf (clearEntry (setBusy True w) e 0 types))
            then remove1 nm (m_names w) else m_names w)"
proof -
  let ?r = "clearEntry (setBusy True w) e 0 types"
  have me: "m_entries (worldOf ?r) = m_entries w" and mn: "m_names (worldOf ?r) = m_names w"
    by (simp_all add: clearEntry_frame)
  have unf: "deleteDataImpl env w nm types =
      (let w3 = (worldOf ?r)\<lparr>m_entries := AList.update nm (entryOf ?r) (m_entries (worldOf ?r))\<rparr>;
           w4 = (if \<not> entryExists env (entryOf ?r)
                 then removeRow nm (AList.delete nm (m_entries w3)) w3
                 else emit (DataChanged (indexOf (m_names w3) nm) (changedOf ?r)) w3);
           w5 = (if 0 <s deletedOf ?r then emit (DataDeleted (deletedOf ?r)) (calculateTotal w4)
                 else w4)
       in setBusy False w5)"
    using assms
    by (simp add: deleteDataImpl_def split_beta Let_def changedOf_def entryOf_def
        deletedOf_def worldOf_def)
  show "m_entries (deleteDataImpl env w nm types) =
           (if \<not> entryExists env (entryOf ?r)
            then AList.delete nm (AList.update nm (entryOf ?r) (m_entries w))
            else AList.update nm (entryOf ?r) (m_entries w))"
    by (simp add: unf Let_def me)
  show "m_names (deleteDataImpl env w nm types) =
           (if \<not> entryExists env (entryOf ?r) then remove1 nm (m_names w) else m_names w)"
    by (simp add: unf Let_def mn)
qed

text \<open>
  C8. With one record per name, \<open>deleteUnusedDataImpl\<close> leaves every record whose
  \<open>installed\<close> is true exactly as it was (paths, sizes, title, icon and the flag itself),
  and every record that remains after \<open>deleteUnusedDataImpl\<close> or after \<open>deleteDataImpl\<close>
  has the \<open>installed\<close> it had before.
\<close>

theorem deletion_keeps_installed:
  assumes "distinct (map fst (m_entries w))"
  shows "(\<forall>n e. map_of (m_entries w) n = Some e \<and> installed e
            \<longrightarrow> map_of (m_entries (deleteUnusedDataImpl env w types)) n = Some e)
    \<and> (\<forall>n e'. map_of (m_entries (deleteUnusedDataImpl env w types)) n = Some e'
            \<longrightarrow> (\<exists>e. map_of (m_entries w) n = Some e \<and> installed e' = installed e))
    \<and> (\<forall>n e'. map_of (m_entries (deleteDataImpl env w nm types)) n = Some e'
            \<longrightarrow> (\<exists>e. map_of (m_entries w) n = Some e \<and> installed e' = installed e))"
proof -
  let ?u = "m_entries (deleteUnusedDataImpl env w types)"
  have pr: "pruned (entryExists env) (m_entries w) ?u" by (rule deleteUnusedDataImpl_pruned)
  have du: "distinct (map fst ?u)" using pr assms by (rule pruned_distinct)
  have a: "map_of ?u n = Some e" if "map_of (m_entries w) n = Some e" "installed e" for n e
  proof -
    from that(1) have "(n, e) \<in> set (m_entries w)" by (rule map_of_SomeD)
    then have "(n, e) \<in> set ?u" using that(2) by (rule pruned_installed_kept [OF pr])
    with du show ?thesis by simp
  qed
  have b: "\<exists>e. map_of (m_entries w) n = Some e \<and> installed e' = installed e"
    if "map_of ?u n = Some e'" for n e'
  proof -
    from that have "(n, e') \<in> set ?u" by (rule map_of_SomeD)
    with pr obtain e where "(n, e) \<in> set (m_entries w)" "sizesOnly e e'"
      using pruned_member by blast
    with assms show ?thesis by (auto simp: sizesOnly_def)
  qed
  have c: "\<exists>e. map_of (m_entries w) n = Some e \<and> installed e' = installed e"
    if h: "map_of (m_entries (deleteDataImpl env w nm types)) n = Some e'" for n e'
  proof (cases "map_of (m_entries w) nm")
    case None
    with h show ?thesis by (simp add: deleteDataImpl_def)
  next
    case (Some e0)
    let ?e1 = "entryOf (clearEntry (setBusy True w) e0 0 types)"
    have so: "sizesOnly e0 ?e1" by (rule clearEntry_frame)
    show ?thesis
    proof (cases "n = nm")
      case True
      with h Some have "e' = ?e1"
        by (simp add: deleteDataImpl_known [OF Some] update_conv delete_conv split: if_splits)
      with so Some True show ?thesis by (simp add: sizesOnly_def)
    next
      case False
      with h Some have "map_of (m_entries w) n = Some e'"
        by (simp add: deleteDataImpl_known [OF Some] update_conv delete_conv split: if_splits)
      then show ?thesis by simp
    qed
  qed
  show ?thesis using a b c by blast
qed

theorem deletion_keeps_installed_witness:
  "distinct (map fst (m_entries installedWorld))
   \<and> map_of (m_entries installedWorld) ''harbour-kept''
        = Some (theEntry installedWorld ''harbour-kept'')
   \<and> installed (theEntry installedWorld ''harbour-kept'')
   \<and> map_of (m_entries (deleteUnusedDataImpl plainEnv installedWorld allTypes)) ''harbour-kept''
        = Some (theEntry installedWorld ''harbour-kept'')
   \<and> \<not> installed (theEntry (deleteUnusedDataImpl plainEnv installedWorld allTypes)
        ''harbour-gone'')
   \<and> installed (theEntry (deleteDataImpl plainEnv installedWorld ''harbour-kept'' {CacheData})
        ''harbour-kept'')"
proof -
  let ?D = "deleteDataImpl plainEnv installedWorld ''harbour-kept'' {CacheData}"
  have d: "distinct (map fst (m_entries installedWorld))"
    unfolding installedWorld_def by code_simp
  have k: "map_of (m_entries installedWorld) ''harbour-kept''
        = Some (theEntry installedWorld ''harbour-kept'')"
    unfolding installedWorld_def by code_simp
  have i: "installed (theEntry installedWorld ''harbour-kept'')"
    unfolding installedWorld_def by code_simp
  have g: "\<not> installed (theEntry (deleteUnusedDataImpl plainEnv installedWorld allTypes)
        ''harbour-gone'')"
    unfolding installedWorld_def by code_simp
  have r: "map_of (m_entries ?D) ''harbour-kept'' = Some (theEntry ?D ''harbour-kept'')"
    unfolding installedWorld_def by code_simp
  note t = deletion_keeps_installed [OF d, of plainEnv allTypes]
  note t' = deletion_keeps_installed [OF d, of plainEnv "{CacheData}" "''harbour-kept''"]
  from t k i have 1: "map_of (m_entries (deleteUnusedDataImpl plainEnv installedWorld allTypes))
      ''harbour-kept'' = Some (theEntry installedWorld ''harbour-kept'')"
    by blast
  from t' r obtain e where "map_of (m_entries installedWorld) ''harbour-kept'' = Some e"
    "installed (theEntry ?D ''harbour-kept'') = installed e"
    by blast
  with k i have 2: "installed (theEntry ?D ''harbour-kept'')" by simp
  from d k i 1 g 2 show ?thesis by (intro conjI)
qed

section \<open>Pruning of empty records\<close>


section \<open>The cached size of a category\<close>

lemma pathsSize_simps [simp]:
  "pathsSize fs [] = 0" "pathsSize fs (ps @ qs) = pathsSize fs ps + pathsSize fs qs"
  "pathsSize fs [p] = getSize fs p"
  by (simp_all add: pathsSize_def)

lemma processKnownPaths_sum:
  "\<exists>new. processKnownPaths fs (ps, s) known = (ps @ new, s + pathsSize fs new)"
proof (induction known arbitrary: ps s)
  case Nil
  show ?case by (rule exI [of _ "[]"]) simp
next
  case (Cons p known)
  show ?case
  proof (cases "pathExists fs p")
    case False
    with Cons.IH [of ps s] show ?thesis by simp
  next
    case True
    from Cons.IH [of "ps @ [p]" "s + getSize fs p"] obtain new where
      "processKnownPaths fs (ps @ [p], s + getSize fs p) known
         = ((ps @ [p]) @ new, (s + getSize fs p) + pathsSize fs new)" by blast
    then have "processKnownPaths fs (ps, s) (p # known)
         = (ps @ (p # new), s + pathsSize fs (p # new))"
      using True by (simp add: pathsSize_def add.assoc)
    then show ?thesis by blast
  qed
qed

lemma processKnownPaths_sized:
  "snd (processKnownPaths fs ([], 0) known) = pathsSize fs (fst (processKnownPaths fs ([], 0) known))"
  using processKnownPaths_sum [of fs "[]" 0 known] by auto

lemma knownLoop_disk [simp]: "disk (knownLoop env apps w) = disk w"
  by (induction apps arbitrary: w) (simp_all add: split_beta Let_def)

lemma discoverLoop_disk [simp]: "disk (discoverLoop env i ds w) = disk w"
proof (induction ds arbitrary: w)
  case Nil
  show ?case by simp
next
  case (Cons a ds)
  obtain dp dn where a: "a = (dp, dn)" by (cases a)
  show ?case by (simp add: a Let_def Cons.IH)
qed

lemma namesLoop_disk [simp]: "disk (namesLoop env nms w) = disk w"
  by (induction nms arbitrary: w) simp_all

lemma discoverLoop_Cons:
  "discoverLoop env i ((dirpath, dirname) # rest) w =
     (if excludePattern env \<noteq> [] \<and> excludeMatch env dirpath then discoverLoop env i rest w
      else discoverLoop env i rest
        ((if map_of (m_entries w) dirname = None
          then w\<lparr>m_names := m_names w @ [dirname]\<rparr> else w)
         \<lparr>m_entries := AList.update dirname
            (setCategory i dirpath (getSize (disk w) dirpath)
               (case map_of (m_entries w) dirname of Some e \<Rightarrow> e | None \<Rightarrow> defaultEntry))
            (m_entries w)\<rparr>))"
  by (simp add: Let_def setCategory_def)

lemma getSize_gone: "map_of fs p = None \<Longrightarrow> getSize fs p = 0"
  by (simp add: getSize_def isDir_def isFile_def)

lemma pathsSize_gone: "\<forall>p \<in> set ps. map_of fs p = None \<Longrightarrow> pathsSize fs ps = 0"
  by (induction ps) (simp_all add: pathsSize_def getSize_gone)

lemma foldl_removePath_filter:
  "\<exists>Q. foldl (\<lambda>fs p. snd (removePath fs p)) fs ps = filter Q fs"
proof (induction ps arbitrary: fs)
  case Nil
  show ?case by (rule exI [of _ "\<lambda>_. True"]) simp
next
  case (Cons p ps)
  obtain Q1 where 1: "snd (removePath fs p) = filter Q1 fs" using removePath_filter by blast
  from Cons.IH [of "filter Q1 fs"] obtain Q2 where
    "foldl (\<lambda>fs p. snd (removePath fs p)) (filter Q1 fs) ps = filter Q2 (filter Q1 fs)" by blast
  with 1 have "foldl (\<lambda>fs p. snd (removePath fs p)) fs (p # ps)
      = filter (\<lambda>x. Q1 x \<and> Q2 x) fs" by simp
  then show ?case by blast
qed

lemma removePaths_filter: "\<exists>Q. disk (snd (removePaths w ps)) = filter Q (disk w)"
proof (cases "list_ex (\<lambda>p. p = []) ps")
  case True
  then have "disk (snd (removePaths w ps)) = filter (\<lambda>_. True) (disk w)"
    by (simp add: removePaths_def)
  then show ?thesis by blast
next
  case False
  then show ?thesis
    using foldl_removePath_filter [of "disk w" ps]
    by (simp add: removePaths_def removeLoop_attempts)
qed

lemma removePaths_clears:
  assumes "wellFormed (disk w)" and "0 <s fst (removePaths w ps)"
    and "p \<in> set ps" and "goneOrDeletable (disk w) p"
  shows "map_of (disk (snd (removePaths w ps))) p = None"
proof -
  have "[] \<notin> set ps"
  proof
    assume "[] \<in> set ps"
    then have "fst (removePaths w ps) = 0" by (auto simp: removePaths_def list_ex_iff)
    with assms(2) show False by simp
  qed
  then have "removePaths w ps = removeLoop ps 0 w" by (rule removePaths_loop)
  with removeLoop_isolated [OF assms(1,3,4), of 0] show ?thesis by simp
qed

lemma keeps_filter: "disk w' = filter Q (disk w) \<Longrightarrow> keeps p w w'"
  by (simp add: keeps_def wellFormed_filter goneOrDeletable_filter map_of_filter_None)

lemma keeps_refl: "keeps p w w"
  by (simp add: keeps_def)

lemma keeps_removePaths: "keeps p w (snd (removePaths w ps))"
  using removePaths_filter [of w ps] keeps_filter by blast

lemma keeps_trans: "keeps p a b \<Longrightarrow> keeps p b c \<Longrightarrow> keeps p a c"
  by (simp add: keeps_def)

lemma clearConfig_keeps: "keeps p (worldOf c) (worldOf (clearConfig types c))"
  by (cases c) (simp add: clearConfig_def split_beta Let_def keeps_refl keeps_removePaths)

lemma clearCache_keeps: "keeps p (worldOf c) (worldOf (clearCache types c))"
  by (cases c) (simp add: clearCache_def split_beta Let_def keeps_refl keeps_removePaths)

lemma clearLocal_keeps: "keeps p (worldOf c) (worldOf (clearLocal types c))"
  by (cases c) (simp add: clearLocal_def split_beta Let_def keeps_refl keeps_removePaths)

lemma clearConfig_clears:
  "wellFormed (disk (worldOf c)) \<Longrightarrow> ConfigData \<in> types \<Longrightarrow> 0 <s config_size (entryOf c) \<Longrightarrow>
   0 <s fst (removePaths (worldOf c) (config_paths (entryOf c))) \<Longrightarrow>
   p \<in> set (config_paths (entryOf c)) \<Longrightarrow> goneOrDeletable (disk (worldOf c)) p \<Longrightarrow>
   map_of (disk (worldOf (clearConfig types c))) p = None"
  by (cases c) (simp add: clearConfig_def split_beta Let_def removePaths_clears)

lemma clearCache_clears:
  "wellFormed (disk (worldOf c)) \<Longrightarrow> CacheData \<in> types \<Longrightarrow> 0 <s cache_size (entryOf c) \<Longrightarrow>
   0 <s fst (removePaths (worldOf c) (cache_paths (entryOf c))) \<Longrightarrow>
   p \<in> set (cache_paths (entryOf c)) \<Longrightarrow> goneOrDeletable (disk (worldOf c)) p \<Longrightarrow>
   map_of (disk (worldOf (clearCache types c))) p = None"
  by (cases c) (simp add: clearCache_def split_beta Let_def removePaths_clears)

lemma clearLocal_clears:
  "wellFormed (disk (worldOf c)) \<Longrightarrow> LocalData \<in> types \<Longrightarrow> 0 <s data_size (entryOf c) \<Longrightarrow>
   0 <s fst (removePaths (worldOf c) (data_paths (entryOf c))) \<Longrightarrow>
   p \<in> set (data_paths (entryOf c)) \<Longrightarrow> goneOrDeletable (disk (worldOf c)) p \<Longrightarrow>
   map_of (disk (worldOf (clearLocal types c))) p = None"
  by (cases c) (simp add: clearLocal_def split_beta Let_def removePaths_clears)

lemma three_cases: "i < (3::nat) \<Longrightarrow> i = 0 \<or> i = 1 \<or> i = 2"
  by linarith

lemma cat_setCategory:
  assumes "i < 3" and "k < 3"
  shows "catPaths k (setCategory i dp sz e) = (if k = i then catPaths i e @ [dp] else catPaths k e)"
    and "catSize k (setCategory i dp sz e) = (if k = i then sz else catSize k e)"
  using three_cases [OF assms(1)] three_cases [OF assms(2)]
  by (auto simp: catPaths_def catSize_def setCategory_def)

lemma cat_default: "catPaths k defaultEntry = []" "catSize k defaultEntry = 0"
  by (simp_all add: catPaths_def catSize_def defaultEntry_def)

lemma exact_default: "exact fs k defaultEntry"
  by (simp add: exact_def cat_default)

lemma rescanInv_cong:
  "(\<And>k. k < 3 \<Longrightarrow> M k = M' k) \<Longrightarrow> rescanInv fs M es = rescanInv fs M' es"
  unfolding rescanInv_def by (auto split: option.splits)

lemma rescanInv_I:
  assumes "\<And>n. map_of es n = None \<Longrightarrow> \<forall>k<3. n \<notin> M k"
    and "\<And>n e k. map_of es n = Some e \<Longrightarrow> k < 3 \<Longrightarrow> n \<in> M k \<Longrightarrow>
           catPaths k e \<noteq> [] \<and> catSize k e = getSize fs (last (catPaths k e))"
    and "\<And>n e k. map_of es n = Some e \<Longrightarrow> k < 3 \<Longrightarrow> n \<notin> M k \<Longrightarrow> exact fs k e"
  shows "rescanInv fs M es"
  unfolding rescanInv_def using assms by (auto split: option.splits)

lemma rescanInv_None: "rescanInv fs M es \<Longrightarrow> map_of es n = None \<Longrightarrow> k < 3 \<Longrightarrow> n \<notin> M k"
  unfolding rescanInv_def by (auto split: option.splits dest: spec [of _ n])

lemma rescanInv_merged:
  "rescanInv fs M es \<Longrightarrow> map_of es n = Some e \<Longrightarrow> k < 3 \<Longrightarrow> n \<in> M k \<Longrightarrow>
   catPaths k e \<noteq> [] \<and> catSize k e = getSize fs (last (catPaths k e))"
  unfolding rescanInv_def by (auto split: option.splits dest!: spec [of _ n])

lemma rescanInv_plain:
  "rescanInv fs M es \<Longrightarrow> map_of es n = Some e \<Longrightarrow> k < 3 \<Longrightarrow> n \<notin> M k \<Longrightarrow> exact fs k e"
  unfolding rescanInv_def by (auto split: option.splits dest!: spec [of _ n])

lemma knownLoop_rescanInv:
  "rescanInv (disk w) (\<lambda>k. {}) (m_entries w) \<Longrightarrow>
   rescanInv (disk w) (\<lambda>k. {}) (m_entries (knownLoop env apps w))"
proof (induction apps arbitrary: w)
  case Nil
  then show ?case by simp
next
  case (Cons app apps)
  let ?c = "processKnownPaths (disk w) ([], 0) (app_config app)"
  let ?h = "processKnownPaths (disk w) ([], 0) (app_cache app)"
  let ?d = "processKnownPaths (disk w) ([], 0) (app_local_data app)"
  let ?e = "defaultEntry\<lparr> config_paths := fst ?c, config_size := snd ?c,
                cache_paths := fst ?h, cache_size := snd ?h,
                data_paths := fst ?d, data_size := snd ?d \<rparr>"
  let ?w' = "w\<lparr> m_names := m_names w @ [app_name app],
              m_entries := AList.update (app_name app) ?e (m_entries w) \<rparr>"
  have unf: "knownLoop env (app # apps) w =
      (if entryExists env ?e then knownLoop env apps ?w' else knownLoop env apps w)"
    by (simp add: split_beta Let_def defaultEntry_def)
  show ?case
  proof (cases "entryExists env ?e")
    case False
    with Cons.IH [OF Cons.prems] show ?thesis by (simp add: unf del: knownLoop.simps)
  next
    case True
    have ex: "exact (disk w) k ?e" for k
      by (simp add: exact_def catSize_def catPaths_def processKnownPaths_sized)
    have "rescanInv (disk ?w') (\<lambda>k. {}) (m_entries ?w')"
    proof (rule rescanInv_I)
      fix n assume "map_of (m_entries ?w') n = None"
      show "\<forall>k<3. n \<notin> {}" by simp
    next
      fix n e k assume "n \<in> ({} :: string set)"
      then show "catPaths k e \<noteq> [] \<and> catSize k e = getSize (disk ?w') (last (catPaths k e))"
        by simp
    next
      fix n e k assume m: "map_of (m_entries ?w') n = Some e" and k: "k < (3::nat)"
      show "exact (disk ?w') k e"
      proof (cases "n = app_name app")
        case True
        with m have "e = ?e" by (simp add: update_conv')
        with ex show ?thesis by simp
      next
        case False
        with m have "map_of (m_entries w) n = Some e" by (simp add: update_conv')
        from rescanInv_plain [OF Cons.prems this k] show ?thesis by simp
      qed
    qed
    from Cons.IH [OF this] True show ?thesis by (simp add: unf del: knownLoop.simps)
  qed
qed

lemma merge_rescanInv:
  assumes i: "i < 3" and inv: "rescanInv fs M es"
  shows "rescanInv fs (M(i := insert dn (M i)))
           (AList.update dn (setCategory i dp (getSize fs dp)
              (case map_of es dn of Some e \<Rightarrow> e | None \<Rightarrow> defaultEntry)) es)"
proof -
  let ?e = "case map_of es dn of Some e \<Rightarrow> e | None \<Rightarrow> defaultEntry"
  let ?e' = "setCategory i dp (getSize fs dp) ?e"
  let ?M = "M(i := insert dn (M i))"
  let ?es = "AList.update dn ?e' es"
  have old_merged: "catPaths k ?e \<noteq> [] \<and> catSize k ?e = getSize fs (last (catPaths k ?e))"
    if "k < 3" "dn \<in> M k" for k
  proof (cases "map_of es dn")
    case None
    from rescanInv_None [OF inv None that(1)] that(2) show ?thesis by simp
  next
    case (Some e0)
    from rescanInv_merged [OF inv Some that] Some show ?thesis by simp
  qed
  have old_plain: "exact fs k ?e" if "k < 3" "dn \<notin> M k" for k
  proof (cases "map_of es dn")
    case None
    then show ?thesis by (simp add: exact_default)
  next
    case (Some e0)
    from rescanInv_plain [OF inv Some that] Some show ?thesis by simp
  qed
  show ?thesis
  proof (rule rescanInv_I)
    fix n assume "map_of ?es n = None"
    then have "n \<noteq> dn" "map_of es n = None" by (auto simp: update_conv' split: if_splits)
    then show "\<forall>k<3. n \<notin> ?M k" using rescanInv_None [OF inv] by auto
  next
    fix n e k assume m: "map_of ?es n = Some e" and k: "k < (3::nat)" and mem: "n \<in> ?M k"
    show "catPaths k e \<noteq> [] \<and> catSize k e = getSize fs (last (catPaths k e))"
    proof (cases "n = dn")
      case True
      with m have e: "e = ?e'" by (simp add: update_conv')
      show ?thesis
      proof (cases "k = i")
        case True
        then show ?thesis unfolding e using i by (simp add: cat_setCategory)
      next
        case False
        with mem \<open>n = dn\<close> have "dn \<in> M k" by simp
        from old_merged [OF k this] False show ?thesis
          unfolding e using i k by (simp add: cat_setCategory)
      qed
    next
      case False
      with m have m': "map_of es n = Some e" by (simp add: update_conv')
      from False mem have "n \<in> M k" by (auto split: if_splits)
      from rescanInv_merged [OF inv m' k this] show ?thesis .
    qed
  next
    fix n e k assume m: "map_of ?es n = Some e" and k: "k < (3::nat)" and nmem: "n \<notin> ?M k"
    show "exact fs k e"
    proof (cases "n = dn")
      case True
      with m have e: "e = ?e'" by (simp add: update_conv')
      from True nmem have ki: "k \<noteq> i" by auto
      with True nmem have "dn \<notin> M k" by simp
      from old_plain [OF k this] ki show ?thesis
        unfolding e exact_def using i k by (simp add: cat_setCategory)
    next
      case False
      with m have m': "map_of es n = Some e" by (simp add: update_conv')
      from False nmem have "n \<notin> M k" by (auto split: if_splits)
      from rescanInv_plain [OF inv m' k this] show ?thesis .
    qed
  qed
qed

lemma discoverLoop_rescanInv:
  "i < 3 \<Longrightarrow> rescanInv (disk w) M (m_entries w) \<Longrightarrow>
   rescanInv (disk w)
     (M(i := M i \<union> set (map snd (filter (\<lambda>(dp, dn). \<not> excluded env dp) ds))))
     (m_entries (discoverLoop env i ds w))"
proof (induction ds arbitrary: M w)
  case Nil
  then show ?case by simp
next
  case (Cons a ds)
  obtain dirpath dirname where a: "a = (dirpath, dirname)" by (cases a)
  let ?S = "set (map snd (filter (\<lambda>(dp, dn). \<not> excluded env dp) ds))"
  show ?case
  proof (cases "excludePattern env \<noteq> [] \<and> excludeMatch env dirpath")
    case True
    then have ex: "excluded env dirpath" by (simp add: excluded_def)
    have unf: "discoverLoop env i (a # ds) w = discoverLoop env i ds w"
      using True unfolding a discoverLoop_Cons by simp
    have "set (map snd (filter (\<lambda>(dp, dn). \<not> excluded env dp) (a # ds))) = ?S"
      using ex by (simp add: a)
    with Cons.IH [OF Cons.prems] show ?thesis unfolding unf by simp
  next
    case False
    then have nex: "\<not> excluded env dirpath" by (simp add: excluded_def)
    let ?w1 = "if map_of (m_entries w) dirname = None
               then w\<lparr>m_names := m_names w @ [dirname]\<rparr> else w"
    let ?e' = "setCategory i dirpath (getSize (disk w) dirpath)
                 (case map_of (m_entries w) dirname of Some e \<Rightarrow> e | None \<Rightarrow> defaultEntry)"
    let ?w2 = "?w1\<lparr>m_entries := AList.update dirname ?e' (m_entries w)\<rparr>"
    let ?M1 = "M(i := insert dirname (M i))"
    have unf: "discoverLoop env i (a # ds) w = discoverLoop env i ds ?w2"
      using False unfolding a discoverLoop_Cons by (simp only: if_False)
    have d2: "disk ?w2 = disk w" and m2: "m_entries ?w2 = AList.update dirname ?e' (m_entries w)"
      by simp_all
    have "rescanInv (disk w) ?M1 (AList.update dirname ?e' (m_entries w))"
      using Cons.prems by (rule merge_rescanInv)
    then have "rescanInv (disk ?w2) ?M1 (m_entries ?w2)" unfolding d2 m2 .
    from Cons.IH [OF Cons.prems(1) this]
    have r: "rescanInv (disk w) (?M1(i := ?M1 i \<union> ?S)) (m_entries (discoverLoop env i ds ?w2))"
      unfolding d2 .
    have eq: "?M1(i := ?M1 i \<union> ?S)
        = M(i := M i \<union> set (map snd (filter (\<lambda>(dp, dn). \<not> excluded env dp) (a # ds))))"
      using nex by (simp add: a)
    show ?thesis unfolding unf using r unfolding eq .
  qed
qed

lemma iconLoop_sizes:
  "config_paths (iconLoop fs tmpls nm e) = config_paths e \<and>
   cache_paths (iconLoop fs tmpls nm e) = cache_paths e \<and>
   data_paths (iconLoop fs tmpls nm e) = data_paths e \<and>
   config_size (iconLoop fs tmpls nm e) = config_size e \<and>
   cache_size (iconLoop fs tmpls nm e) = cache_size e \<and>
   data_size (iconLoop fs tmpls nm e) = data_size e"
  by (induction tmpls) simp_all

lemma desktopLoop_sizes:
  "config_paths (desktopLoop fs nm ps e) = config_paths e \<and>
   cache_paths (desktopLoop fs nm ps e) = cache_paths e \<and>
   data_paths (desktopLoop fs nm ps e) = data_paths e \<and>
   config_size (desktopLoop fs nm ps e) = config_size e \<and>
   cache_size (desktopLoop fs nm ps e) = cache_size e \<and>
   data_size (desktopLoop fs nm ps e) = data_size e"
  by (induction ps) (simp_all add: Let_def iconLoop_sizes)

lemma cat_desktopLoop:
  "catPaths k (desktopLoop fs nm ps e) = catPaths k e"
  "catSize k (desktopLoop fs nm ps e) = catSize k e"
  by (simp_all add: catPaths_def catSize_def desktopLoop_sizes)

lemma namesLoop_rescanInv:
  "rescanInv fs M (m_entries w) \<Longrightarrow> rescanInv fs M (m_entries (namesLoop env nms w))"
proof (induction nms arbitrary: w)
  case Nil
  then show ?case by simp
next
  case (Cons nm nms)
  let ?f = "desktopLoop (disk w) nm (applicationsLocations env)"
  let ?es = "AList.map_entry nm ?f (m_entries w)"
  have "rescanInv fs M ?es"
  proof (rule rescanInv_I)
    fix n assume "map_of ?es n = None"
    then have "map_of (m_entries w) n = None"
      by (auto simp: map_of_map_entry split: if_splits option.splits)
    then show "\<forall>k<3. n \<notin> M k" using rescanInv_None [OF Cons.prems] by blast
  next
    fix n e k assume m: "map_of ?es n = Some e" and k: "k < (3::nat)" and mem: "n \<in> M k"
    from m obtain e0 where e0: "map_of (m_entries w) n = Some e0"
      and ee: "catPaths k e = catPaths k e0 \<and> catSize k e = catSize k e0"
      by (auto simp: map_of_map_entry cat_desktopLoop split: if_splits option.splits)
    from rescanInv_merged [OF Cons.prems e0 k mem] ee
    show "catPaths k e \<noteq> [] \<and> catSize k e = getSize fs (last (catPaths k e))" by simp
  next
    fix n e k assume m: "map_of ?es n = Some e" and k: "k < (3::nat)" and nmem: "n \<notin> M k"
    from m obtain e0 where e0: "map_of (m_entries w) n = Some e0"
      and ee: "catPaths k e = catPaths k e0 \<and> catSize k e = catSize k e0"
      by (auto simp: map_of_map_entry cat_desktopLoop split: if_splits option.splits)
    from rescanInv_plain [OF Cons.prems e0 k nmem] ee
    show "exact fs k e" by (simp add: exact_def)
  qed
  then show ?case by (simp add: Cons.IH)
qed

lemma resetImpl_disk [simp]: "disk (resetImpl env w) = disk w"
  by (simp add: resetImpl_def Let_def)

lemma resetImpl_rescanInv:
  "rescanInv (disk w) (\<lambda>k. set (mergedNames env (disk w) k)) (m_entries (resetImpl env w))"
proof -
  let ?w4 = "(emit ResettingChanged ((emit BeginResetModel (setBusy True w))\<lparr>m_resetting := True\<rparr>))
               \<lparr>m_names := [], m_entries := []\<rparr>"
  let ?w5 = "knownLoop env (knownApps env) ?w4"
  let ?a = "discoverLoop env 0 (harbourDirs (disk w) (genericConfigLocation env)) ?w5"
  let ?b = "discoverLoop env 1 (harbourDirs (disk w) (genericCacheLocation env)) ?a"
  let ?c = "discoverLoop env 2 (harbourDirs (disk w) (genericDataLocation env)) ?b"
  let ?w7 = "namesLoop env (map fst (m_entries ?c)) ?c"
  let ?M0 = "(\<lambda>k. {}) :: nat \<Rightarrow> string set"
  let ?Ma = "?M0(0 := ?M0 0 \<union> set (mergedNames env (disk w) 0))"
  let ?Mb = "?Ma(1 := ?Ma 1 \<union> set (mergedNames env (disk w) 1))"
  let ?Mc = "?Mb(2 := ?Mb 2 \<union> set (mergedNames env (disk w) 2))"
  have "rescanInv (disk ?w4) ?M0 (m_entries ?w4)" by (simp add: rescanInv_def)
  then have "rescanInv (disk ?w4) ?M0 (m_entries ?w5)" by (rule knownLoop_rescanInv)
  then have 5: "rescanInv (disk ?w5) ?M0 (m_entries ?w5)" by simp
  have a: "rescanInv (disk ?w5) ?Ma (m_entries ?a)"
    using discoverLoop_rescanInv [OF _ 5, of 0 env "harbourDirs (disk w) (genericConfigLocation env)"]
    by (simp add: mergedNames_def searchRoot_def)
  then have a': "rescanInv (disk ?a) ?Ma (m_entries ?a)" by simp
  have b: "rescanInv (disk ?a) ?Mb (m_entries ?b)"
    using discoverLoop_rescanInv [OF _ a', of 1 env "harbourDirs (disk w) (genericCacheLocation env)"]
    by (simp add: mergedNames_def searchRoot_def)
  then have b': "rescanInv (disk ?b) ?Mb (m_entries ?b)" by simp
  have c: "rescanInv (disk ?b) ?Mc (m_entries ?c)"
    using discoverLoop_rescanInv [OF _ b', of 2 env "harbourDirs (disk w) (genericDataLocation env)"]
    by (simp add: mergedNames_def searchRoot_def)
  then have "rescanInv (disk w) ?Mc (m_entries ?c)" by simp
  then have 7: "rescanInv (disk w) ?Mc (m_entries ?w7)" by (rule namesLoop_rescanInv)
  have "?Mc k = set (mergedNames env (disk w) k)" if "k < 3" for k
    using three_cases [OF that] by auto
  then have "rescanInv (disk w) ?Mc (m_entries ?w7)
      = rescanInv (disk w) (\<lambda>k. set (mergedNames env (disk w) k)) (m_entries ?w7)"
    by (intro rescanInv_cong) simp
  moreover have "m_entries (resetImpl env w) = m_entries ?w7"
    by (simp add: resetImpl_def Let_def)
  ultimately show ?thesis using 7 by simp
qed

lemma map_of_filter_keep: "(\<And>n. Q (p, n)) \<Longrightarrow> map_of (filter Q fs) p = map_of fs p"
  by (induction fs) auto

lemma below_comparable:
  assumes "below p k" and "below q k"
  shows "p = q \<or> below p q \<or> below q p"
proof -
  from assms have "prefix (p @ ''/'') k" "prefix (q @ ''/'') k" by (simp_all add: below_def)
  then have "prefix (p @ ''/'') (q @ ''/'') \<or> prefix (q @ ''/'') (p @ ''/'')"
    by (rule prefix_same_cases)
  then show ?thesis by (auto simp: below_def)
qed

lemma getSize_filter:
  assumes "\<And>k n. k = p \<or> below p k \<Longrightarrow> Q (k, n)"
  shows "getSize (filter Q fs) p = getSize fs p"
proof -
  have m: "map_of (filter Q fs) p = map_of fs p"
    by (rule map_of_filter_keep) (simp add: assms)
  have "filesBelow (filter Q fs) p = filesBelow fs p"
    unfolding filesBelow_def filter_filter
    by (rule filter_cong) (auto simp: assms)
  with m show ?thesis by (simp add: getSize_def isDir_def isFile_def fileSize_def)
qed

lemma removePath_away:
  "\<exists>Q. snd (removePath fs q) = filter Q fs \<and> (\<forall>k n. k \<noteq> q \<and> \<not> below q k \<longrightarrow> Q (k, n))"
proof (cases "isDir fs q")
  case True
  then have "snd (removePath fs q) = filter (survives fs q) fs"
    by (simp add: removePath_def removeRecursively_def)
  moreover have "\<forall>k n. k \<noteq> q \<and> \<not> below q k \<longrightarrow> survives fs q (k, n)"
    by (simp add: survives_def)
  ultimately show ?thesis by blast
next
  case nd: False
  show ?thesis
  proof (cases "snd (removePath fs q) = fs")
    case True
    then have "snd (removePath fs q) = filter (\<lambda>_. True) fs" by simp
    then show ?thesis by blast
  next
    case False
    with nd have "snd (removePath fs q) = filter (\<lambda>(k, n). k \<noteq> q) fs"
      by (auto simp: removePath_def removeFile_def split: if_splits option.splits node.splits)
    moreover have "\<forall>k n. k \<noteq> q \<and> \<not> below q k \<longrightarrow> (\<lambda>(k, n). k \<noteq> q) (k, n)" by simp
    ultimately show ?thesis by blast
  qed
qed

lemma removePath_apart:
  assumes "apart p q"
  shows "getSize (snd (removePath fs q)) p = getSize fs p"
proof -
  obtain Q where Q: "snd (removePath fs q) = filter Q fs"
    and away: "\<And>k n. k \<noteq> q \<Longrightarrow> \<not> below q k \<Longrightarrow> Q (k, n)"
    using removePath_away [of fs q] by blast
  have "Q (k, n)" if "k = p \<or> below p k" for k n
  proof (rule away)
    show "k \<noteq> q" using that assms by (auto simp: apart_def)
    show "\<not> below q k"
    proof
      assume b: "below q k"
      from that show False
      proof
        assume "k = p"
        with b assms show False by (simp add: apart_def)
      next
        assume "below p k"
        from below_comparable [OF this b] assms show False by (auto simp: apart_def)
      qed
    qed
  qed
  then show ?thesis unfolding Q by (rule getSize_filter)
qed

lemma foldl_removePath_apart:
  "\<forall>q \<in> set qs. apart p q \<Longrightarrow>
   getSize (foldl (\<lambda>fs q. snd (removePath fs q)) fs qs) p = getSize fs p"
  by (induction qs arbitrary: fs) (simp_all add: removePath_apart)

lemma removePaths_apart:
  "\<forall>q \<in> set qs. apart p q \<Longrightarrow>
   getSize (disk (snd (removePaths w qs))) p = getSize (disk w) p"
  by (simp add: removePaths_def removeLoop_attempts foldl_removePath_apart)

lemma clearConfig_apart:
  "(ConfigData \<in> types \<and> 0 <s config_size (entryOf c) \<longrightarrow>
      (\<forall>q \<in> set (config_paths (entryOf c)). apart p q)) \<Longrightarrow>
   getSize (disk (worldOf (clearConfig types c))) p = getSize (disk (worldOf c)) p"
  by (cases c) (simp add: clearConfig_def split_beta Let_def removePaths_apart)

lemma clearCache_apart:
  "(CacheData \<in> types \<and> 0 <s cache_size (entryOf c) \<longrightarrow>
      (\<forall>q \<in> set (cache_paths (entryOf c)). apart p q)) \<Longrightarrow>
   getSize (disk (worldOf (clearCache types c))) p = getSize (disk (worldOf c)) p"
  by (cases c) (simp add: clearCache_def split_beta Let_def removePaths_apart)

lemma clearLocal_apart:
  "(LocalData \<in> types \<and> 0 <s data_size (entryOf c) \<longrightarrow>
      (\<forall>q \<in> set (data_paths (entryOf c)). apart p q)) \<Longrightarrow>
   getSize (disk (worldOf (clearLocal types c))) p = getSize (disk (worldOf c)) p"
  by (cases c) (simp add: clearLocal_def split_beta Let_def removePaths_apart)

lemma clearEntry_apart:
  assumes "\<forall>q \<in> set (batch types e). apart p q"
  shows "getSize (disk (worldOf (clearEntry w e d types))) p = getSize (disk w) p"
proof -
  let ?c0 = "([], e, d, w) :: clearing"
  let ?c1 = "clearConfig types ?c0"
  let ?c2 = "clearCache types ?c1"
  let ?c3 = "clearLocal types ?c2"
  have s1: "sizesOnly e (entryOf ?c1)" using clearConfig_frame [of types ?c0] by simp
  have s2: "sizesOnly (entryOf ?c1) (entryOf ?c2)" using clearCache_frame [of types ?c1] by simp
  have z1: "cache_size (entryOf ?c1) = cache_size e" "data_size (entryOf ?c1) = data_size e"
    using clearConfig_effect(1,2) [of types ?c0] by simp_all
  have z2: "data_size (entryOf ?c2) = data_size e"
    using clearCache_effect(2) [of types ?c1] z1 by simp
  have p1: "cache_paths (entryOf ?c1) = cache_paths e" using s1 by (simp add: sizesOnly_def)
  have p2: "data_paths (entryOf ?c2) = data_paths e" using s1 s2 by (simp add: sizesOnly_def)
  have 1: "getSize (disk (worldOf ?c1)) p = getSize (disk w) p"
    using clearConfig_apart [of types ?c0 p] assms by (simp add: batch_def)
  have 2: "getSize (disk (worldOf ?c2)) p = getSize (disk (worldOf ?c1)) p"
    using clearCache_apart [of types ?c1 p] assms by (simp add: batch_def z1 p1)
  have 3: "getSize (disk (worldOf ?c3)) p = getSize (disk (worldOf ?c2)) p"
    using clearLocal_apart [of types ?c2 p] assms by (simp add: batch_def z2 p2)
  show ?thesis unfolding clearEntry_def using 1 2 3 by simp
qed

lemma clearEntry_keeps: "keeps p w (worldOf (clearEntry w e d types))"
proof -
  let ?c0 = "([], e, d, w) :: clearing"
  let ?c1 = "clearConfig types ?c0"
  let ?c2 = "clearCache types ?c1"
  have "keeps p w (worldOf ?c1)" using clearConfig_keeps [of p ?c0 types] by simp
  then have "keeps p w (worldOf ?c2)" using clearCache_keeps [of p ?c1 types] by (rule keeps_trans)
  then have "keeps p w (worldOf (clearLocal types ?c2))"
    using clearLocal_keeps [of p ?c2 types] by (rule keeps_trans)
  then show ?thesis by (simp add: clearEntry_def)
qed

lemma clearConfig_changed:
  "config_size (entryOf (clearConfig types c)) \<noteq> config_size (entryOf c) \<Longrightarrow>
   ConfigData \<in> types \<and> 0 <s config_size (entryOf c)
   \<and> 0 <s fst (removePaths (worldOf c) (config_paths (entryOf c)))
   \<and> config_size (entryOf (clearConfig types c)) = 0"
  by (cases c) (auto simp: clearConfig_def split_beta Let_def split: if_splits)

lemma clearCache_changed:
  "cache_size (entryOf (clearCache types c)) \<noteq> cache_size (entryOf c) \<Longrightarrow>
   CacheData \<in> types \<and> 0 <s cache_size (entryOf c)
   \<and> 0 <s fst (removePaths (worldOf c) (cache_paths (entryOf c)))
   \<and> cache_size (entryOf (clearCache types c)) = 0"
  by (cases c) (auto simp: clearCache_def split_beta Let_def split: if_splits)

lemma clearLocal_changed:
  "data_size (entryOf (clearLocal types c)) \<noteq> data_size (entryOf c) \<Longrightarrow>
   LocalData \<in> types \<and> 0 <s data_size (entryOf c)
   \<and> 0 <s fst (removePaths (worldOf c) (data_paths (entryOf c)))
   \<and> data_size (entryOf (clearLocal types c)) = 0"
  by (cases c) (auto simp: clearLocal_def split_beta Let_def split: if_splits)

lemma wiped_refl: "wiped fs fs' e e"
  by (simp add: wiped_def)

lemma wiped_mono:
  assumes "wiped fs1 fs2 e e'"
    and "\<And>p. goneOrDeletable fs0 p \<Longrightarrow> goneOrDeletable fs1 p"
    and "\<And>p. map_of fs2 p = None \<Longrightarrow> map_of fs3 p = None"
  shows "wiped fs0 fs3 e e'"
  using assms unfolding wiped_def by blast

lemma clearEntry_wiped:
  assumes wf: "wellFormed (disk w)"
  shows "wiped (disk w) (disk (worldOf (clearEntry w e d types))) e
           (entryOf (clearEntry w e d types))"
proof -
  let ?c0 = "([], e, d, w) :: clearing"
  let ?c1 = "clearConfig types ?c0"
  let ?c2 = "clearCache types ?c1"
  let ?c3 = "clearLocal types ?c2"
  have r: "clearEntry w e d types = ?c3" by (simp add: clearEntry_def)
  have k1: "keeps p w (worldOf ?c1)" for p using clearConfig_keeps [of p ?c0 types] by simp
  have k2: "keeps p (worldOf ?c1) (worldOf ?c2)" for p by (rule clearCache_keeps)
  have k3: "keeps p (worldOf ?c2) (worldOf ?c3)" for p by (rule clearLocal_keeps)
  have wf1: "wellFormed (disk (worldOf ?c1))" using k1 [of "[]"] wf by (simp add: keeps_def)
  have wf2: "wellFormed (disk (worldOf ?c2))" using k2 [of "[]"] wf1 by (simp add: keeps_def)
  have g1: "goneOrDeletable (disk (worldOf ?c1)) p" if "goneOrDeletable (disk w) p" for p
    using k1 [of p] wf that by (simp add: keeps_def)
  have g2: "goneOrDeletable (disk (worldOf ?c2)) p" if "goneOrDeletable (disk w) p" for p
    using k2 [of p] wf1 g1 [OF that] by (simp add: keeps_def)
  have n12: "map_of (disk (worldOf ?c2)) p = None" if "map_of (disk (worldOf ?c1)) p = None" for p
    using k2 [of p] wf1 that by (simp add: keeps_def)
  have n23: "map_of (disk (worldOf ?c3)) p = None" if "map_of (disk (worldOf ?c2)) p = None" for p
    using k3 [of p] wf2 that by (simp add: keeps_def)
  have s1: "sizesOnly e (entryOf ?c1)" using clearConfig_frame [of types ?c0] by simp
  have s2: "sizesOnly (entryOf ?c1) (entryOf ?c2)" using clearCache_frame [of types ?c1] by simp
  have s3: "sizesOnly e (entryOf ?c3)" using clearEntry_frame(3) [of e w d types] by (simp add: r)
  have z1: "cache_size (entryOf ?c1) = cache_size e" "data_size (entryOf ?c1) = data_size e"
    using clearConfig_effect(1,2) [of types ?c0] by simp_all
  have z2: "data_size (entryOf ?c2) = data_size e"
    using clearCache_effect(2) [of types ?c1] z1 by simp
  have p1: "cache_paths (entryOf ?c1) = cache_paths e" using s1 by (simp add: sizesOnly_def)
  have p2: "data_paths (entryOf ?c2) = data_paths e" using s1 s2 by (simp add: sizesOnly_def)
  have c3: "config_size (entryOf ?c3) = config_size (entryOf ?c1)"
    by (simp add: clearLocal_effect(1) clearCache_effect(1))
  have h3: "cache_size (entryOf ?c3) = cache_size (entryOf ?c2)"
    by (simp add: clearLocal_effect(2))
  have cfg: "config_size (entryOf ?c3) = 0
      \<and> (\<forall>p \<in> set (config_paths e). goneOrDeletable (disk w) p \<longrightarrow>
            map_of (disk (worldOf ?c3)) p = None)"
    if ne: "config_size (entryOf ?c3) \<noteq> config_size e"
  proof -
    from ne c3 have "config_size (entryOf ?c1) \<noteq> config_size (entryOf ?c0)" by simp
    from clearConfig_changed [OF this]
    have ch: "ConfigData \<in> types" "0 <s config_size e"
      "0 <s fst (removePaths w (config_paths e))" "config_size (entryOf ?c1) = 0"
      by simp_all
    have "map_of (disk (worldOf ?c3)) p = None"
      if "p \<in> set (config_paths e)" "goneOrDeletable (disk w) p" for p
    proof -
      have "map_of (disk (worldOf ?c1)) p = None"
        using clearConfig_clears [of ?c0 types p] wf ch that by simp
      then show ?thesis by (intro n23 n12)
    qed
    with ch(4) c3 show ?thesis by simp
  qed
  have cch: "cache_size (entryOf ?c3) = 0
      \<and> (\<forall>p \<in> set (cache_paths e). goneOrDeletable (disk w) p \<longrightarrow>
            map_of (disk (worldOf ?c3)) p = None)"
    if ne: "cache_size (entryOf ?c3) \<noteq> cache_size e"
  proof -
    from ne h3 z1 have "cache_size (entryOf ?c2) \<noteq> cache_size (entryOf ?c1)" by simp
    from clearCache_changed [OF this]
    have ch: "CacheData \<in> types" "0 <s cache_size (entryOf ?c1)"
      "0 <s fst (removePaths (worldOf ?c1) (cache_paths (entryOf ?c1)))"
      "cache_size (entryOf ?c2) = 0"
      by simp_all
    have "map_of (disk (worldOf ?c3)) p = None"
      if "p \<in> set (cache_paths e)" "goneOrDeletable (disk w) p" for p
    proof -
      have "map_of (disk (worldOf ?c2)) p = None"
        using clearCache_clears [of ?c1 types p] wf1 ch that(1) g1 [OF that(2)]
        by (simp add: p1)
      then show ?thesis by (rule n23)
    qed
    with ch(4) h3 show ?thesis by simp
  qed
  have loc: "data_size (entryOf ?c3) = 0
      \<and> (\<forall>p \<in> set (data_paths e). goneOrDeletable (disk w) p \<longrightarrow>
            map_of (disk (worldOf ?c3)) p = None)"
    if ne: "data_size (entryOf ?c3) \<noteq> data_size e"
  proof -
    from ne z2 have "data_size (entryOf ?c3) \<noteq> data_size (entryOf ?c2)" by simp
    from clearLocal_changed [OF this]
    have ch: "LocalData \<in> types" "0 <s data_size (entryOf ?c2)"
      "0 <s fst (removePaths (worldOf ?c2) (data_paths (entryOf ?c2)))"
      "data_size (entryOf ?c3) = 0"
      by simp_all
    have "map_of (disk (worldOf ?c3)) p = None"
      if "p \<in> set (data_paths e)" "goneOrDeletable (disk w) p" for p
      using clearLocal_clears [of ?c2 types p] wf2 ch that(1) g2 [OF that(2)]
      by (simp add: p2)
    with ch(4) show ?thesis by simp
  qed
  have paths: "config_paths (entryOf ?c3) = config_paths e"
    "cache_paths (entryOf ?c3) = cache_paths e" "data_paths (entryOf ?c3) = data_paths e"
    using s3 by (simp_all add: sizesOnly_def)
  have "catPaths i (entryOf ?c3) = catPaths i e
        \<and> (catSize i (entryOf ?c3) = catSize i e \<or> catSize i (entryOf ?c3) = 0)
        \<and> (catSize i (entryOf ?c3) \<noteq> catSize i e \<longrightarrow>
             (\<forall>p \<in> set (catPaths i e). goneOrDeletable (disk w) p \<longrightarrow>
                map_of (disk (worldOf ?c3)) p = None))" if "i < 3" for i
  proof -
    from three_cases [OF that] consider "i = 0" | "i = 1" | "i = 2" by blast
    then show ?thesis
    proof cases
      case 1
      with cfg paths(1) show ?thesis by (simp add: catPaths_def catSize_def) blast
    next
      case 2
      with cch paths(2) show ?thesis by (simp add: catPaths_def catSize_def) blast
    next
      case 3
      with loc paths(3) show ?thesis by (simp add: catPaths_def catSize_def) blast
    qed
  qed
  then show ?thesis unfolding r wiped_def by blast
qed

lemma keeps_disk: "disk a = disk a' \<Longrightarrow> disk b = disk b' \<Longrightarrow> keeps p a b = keeps p a' b'"
  by (simp add: keeps_def)

lemma unusedLoop_keeps: "keeps p w (snd (unusedLoop env types visited todo d w))"
proof (induction todo arbitrary: visited d w)
  case Nil
  show ?case by (simp add: keeps_refl)
next
  case (Cons a rest)
  obtain nm e where a: "a = (nm, e)" by (cases a)
  let ?r = "clearEntry w e d types"
  let ?w2 = "(worldOf ?r)\<lparr>m_entries := visited @ (nm, entryOf ?r) # rest\<rparr>"
  let ?wa = "removeRow nm (visited @ rest) ?w2"
  let ?wb = "emit (DataChanged (indexOf (m_names (worldOf ?r)) nm) (changedOf ?r)) ?w2"
  have ka: "keeps p w ?wa"
    using clearEntry_keeps [of p w e d types] keeps_disk [of w w ?wa "worldOf ?r" p] by simp
  have kb: "keeps p w ?wb"
    using clearEntry_keeps [of p w e d types] keeps_disk [of w w ?wb "worldOf ?r" p] by simp
  show ?case
  proof (cases "installed e")
    case True
    then show ?thesis using Cons.IH
      by (simp add: a unusedLoop_Cons del: unusedLoop.simps)
  next
    case False
    show ?thesis
    proof (cases "entryExists env (entryOf ?r)")
      case True
      have "keeps p w (snd (unusedLoop env types (visited @ [(nm, entryOf ?r)]) rest
              (deletedOf ?r) ?wb))"
        using kb Cons.IH by (rule keeps_trans)
      with False True show ?thesis by (simp add: a unusedLoop_Cons del: unusedLoop.simps)
    next
      case nex: False
      have "keeps p w (snd (unusedLoop env types visited rest (deletedOf ?r) ?wa))"
        using ka Cons.IH by (rule keeps_trans)
      with False nex show ?thesis by (simp add: a unusedLoop_Cons del: unusedLoop.simps)
    qed
  qed
qed

lemma unusedLoop_apart:
  "\<forall>q \<in> set (unusedBatch types todo). apart p q \<Longrightarrow>
   getSize (disk (snd (unusedLoop env types visited todo d w))) p = getSize (disk w) p"
proof (induction todo arbitrary: visited d w)
  case Nil
  show ?case by simp
next
  case (Cons a rest)
  obtain nm e where a: "a = (nm, e)" by (cases a)
  let ?r = "clearEntry w e d types"
  let ?w2 = "(worldOf ?r)\<lparr>m_entries := visited @ (nm, entryOf ?r) # rest\<rparr>"
  let ?wa = "removeRow nm (visited @ rest) ?w2"
  let ?wb = "emit (DataChanged (indexOf (m_names (worldOf ?r)) nm) (changedOf ?r)) ?w2"
  from Cons.prems have rest: "\<forall>q \<in> set (unusedBatch types rest). apart p q"
    by (simp add: unusedBatch_def)
  show ?case
  proof (cases "installed e")
    case True
    then show ?thesis using Cons.IH [OF rest]
      by (simp add: a unusedLoop_Cons del: unusedLoop.simps)
  next
    case False
    with Cons.prems have "\<forall>q \<in> set (batch types e). apart p q"
      by (simp add: unusedBatch_def a)
    then have g: "getSize (disk (worldOf ?r)) p = getSize (disk w) p" by (rule clearEntry_apart)
    show ?thesis
    proof (cases "entryExists env (entryOf ?r)")
      case True
      from Cons.IH [OF rest, where w = ?wb] g
      have "getSize (disk (snd (unusedLoop env types (visited @ [(nm, entryOf ?r)]) rest
              (deletedOf ?r) ?wb))) p = getSize (disk w) p" by simp
      with False True show ?thesis by (simp add: a unusedLoop_Cons del: unusedLoop.simps)
    next
      case nex: False
      from Cons.IH [OF rest, where w = ?wa] g
      have "getSize (disk (snd (unusedLoop env types visited rest (deletedOf ?r) ?wa))) p
          = getSize (disk w) p" by simp
      with False nex show ?thesis by (simp add: a unusedLoop_Cons del: unusedLoop.simps)
    qed
  qed
qed

lemma unusedLoop_wiped:
  "wellFormed (disk w) \<Longrightarrow> m_entries w = visited @ todo \<Longrightarrow>
   \<exists>R. m_entries (snd (unusedLoop env types visited todo d w)) = visited @ R
       \<and> (\<forall>n e'. (n, e') \<in> set R \<longrightarrow>
            (\<exists>e. (n, e) \<in> set todo
                \<and> wiped (disk w) (disk (snd (unusedLoop env types visited todo d w))) e e'))"
proof (induction todo arbitrary: visited d w)
  case Nil
  then show ?case by simp
next
  case (Cons a rest)
  obtain nm e where a: "a = (nm, e)" by (cases a)
  let ?r = "clearEntry w e d types"
  let ?w2 = "(worldOf ?r)\<lparr>m_entries := visited @ (nm, entryOf ?r) # rest\<rparr>"
  let ?wa = "removeRow nm (visited @ rest) ?w2"
  let ?wb = "emit (DataChanged (indexOf (m_names (worldOf ?r)) nm) (changedOf ?r)) ?w2"
  note wf = Cons.prems(1)
  have kr: "keeps p w (worldOf ?r)" for p by (rule clearEntry_keeps)
  have wfr: "wellFormed (disk (worldOf ?r))" using kr [of "[]"] wf by (simp add: keeps_def)
  have gr: "goneOrDeletable (disk (worldOf ?r)) p" if "goneOrDeletable (disk w) p" for p
    using kr [of p] wf that by (simp add: keeps_def)
  have head: "wiped (disk w) (disk (worldOf ?r)) e (entryOf ?r)"
    using wf by (rule clearEntry_wiped)
  show ?case
  proof (cases "installed e")
    case True
    let ?res = "snd (unusedLoop env types (visited @ [(nm, e)]) rest d w)"
    have "m_entries w = (visited @ [(nm, e)]) @ rest" using Cons.prems(2) by (simp add: a)
    from Cons.IH [OF wf this, of d] obtain R where
      R: "m_entries ?res = (visited @ [(nm, e)]) @ R"
         "\<And>n e'. (n, e') \<in> set R \<Longrightarrow>
            \<exists>e0. (n, e0) \<in> set rest \<and> wiped (disk w) (disk ?res) e0 e'"
      by blast
    have eq: "unusedLoop env types visited (a # rest) d w
        = unusedLoop env types (visited @ [(nm, e)]) rest d w"
      using True by (simp add: a unusedLoop_Cons del: unusedLoop.simps)
    have "m_entries ?res = visited @ ((nm, e) # R)" using R(1) by simp
    moreover have "\<exists>e0. (n, e0) \<in> set (a # rest) \<and> wiped (disk w) (disk ?res) e0 e'"
      if "(n, e') \<in> set ((nm, e) # R)" for n e'
    proof (cases "(n, e') = (nm, e)")
      case True
      then show ?thesis using wiped_refl [of "disk w" "disk ?res" e] by (auto simp: a)
    next
      case False
      with that have "(n, e') \<in> set R" by auto
      from R(2) [OF this] show ?thesis by auto
    qed
    ultimately show ?thesis unfolding eq by blast
  next
    case False
    show ?thesis
    proof (cases "entryExists env (entryOf ?r)")
      case True
      let ?res = "snd (unusedLoop env types (visited @ [(nm, entryOf ?r)]) rest
                    (deletedOf ?r) ?wb)"
      have eq: "unusedLoop env types visited (a # rest) d w
          = unusedLoop env types (visited @ [(nm, entryOf ?r)]) rest (deletedOf ?r) ?wb"
        using False True by (simp add: a unusedLoop_Cons del: unusedLoop.simps)
      have wfb: "wellFormed (disk ?wb)" using wfr by simp
      have mb: "m_entries ?wb = (visited @ [(nm, entryOf ?r)]) @ rest" by simp
      from Cons.IH [OF wfb mb, of "deletedOf ?r"] obtain R where
        R: "m_entries ?res = (visited @ [(nm, entryOf ?r)]) @ R"
           "\<And>n e'. (n, e') \<in> set R \<Longrightarrow>
              \<exists>e0. (n, e0) \<in> set rest \<and> wiped (disk ?wb) (disk ?res) e0 e'"
        by blast
      have kres: "keeps p ?wb ?res" for p by (rule unusedLoop_keeps)
      have stay: "map_of (disk ?res) p = None" if "map_of (disk (worldOf ?r)) p = None" for p
        using kres [of p] wfb that by (simp add: keeps_def)
      have "m_entries ?res = visited @ ((nm, entryOf ?r) # R)" using R(1) by simp
      moreover have "\<exists>e0. (n, e0) \<in> set (a # rest) \<and> wiped (disk w) (disk ?res) e0 e'"
        if "(n, e') \<in> set ((nm, entryOf ?r) # R)" for n e'
      proof (cases "(n, e') = (nm, entryOf ?r)")
        case True
        have "wiped (disk w) (disk ?res) e (entryOf ?r)"
          using head by (rule wiped_mono) (simp_all add: stay)
        with True show ?thesis by (auto simp: a)
      next
        case False
        with that have "(n, e') \<in> set R" by auto
        from R(2) [OF this] obtain e0 where
          e0: "(n, e0) \<in> set rest" "wiped (disk ?wb) (disk ?res) e0 e'" by blast
        from e0(2) have "wiped (disk w) (disk ?res) e0 e'"
          by (rule wiped_mono) (simp_all add: gr)
        with e0(1) show ?thesis by auto
      qed
      ultimately show ?thesis unfolding eq by blast
    next
      case nex: False
      let ?res = "snd (unusedLoop env types visited rest (deletedOf ?r) ?wa)"
      have eq: "unusedLoop env types visited (a # rest) d w
          = unusedLoop env types visited rest (deletedOf ?r) ?wa"
        using False nex by (simp add: a unusedLoop_Cons del: unusedLoop.simps)
      have wfa: "wellFormed (disk ?wa)" using wfr by simp
      have ma: "m_entries ?wa = visited @ rest" by simp
      from Cons.IH [OF wfa ma, of "deletedOf ?r"] obtain R where
        R: "m_entries ?res = visited @ R"
           "\<And>n e'. (n, e') \<in> set R \<Longrightarrow>
              \<exists>e0. (n, e0) \<in> set rest \<and> wiped (disk ?wa) (disk ?res) e0 e'"
        by blast
      have "\<exists>e0. (n, e0) \<in> set (a # rest) \<and> wiped (disk w) (disk ?res) e0 e'"
        if "(n, e') \<in> set R" for n e'
      proof -
        from R(2) [OF that] obtain e0 where
          e0: "(n, e0) \<in> set rest" "wiped (disk ?wa) (disk ?res) e0 e'" by blast
        from e0(2) have "wiped (disk w) (disk ?res) e0 e'"
          by (rule wiped_mono) (simp_all add: gr)
        with e0(1) show ?thesis by auto
      qed
      with R(1) show ?thesis unfolding eq by blast
    qed
  qed
qed

lemma wiped_afterDeletion:
  assumes w: "wiped fs fs' e e'" and i: "i < 3"
    and ap: "\<And>p. \<forall>q \<in> set attempted. apart p q \<Longrightarrow> getSize fs' p = getSize fs p"
  shows "afterDeletion fs fs' attempted i e e'"
proof -
  from w i have paths: "catPaths i e' = catPaths i e"
    and sizes: "catSize i e' = catSize i e \<or> catSize i e' = 0"
    and gone: "catSize i e' \<noteq> catSize i e \<Longrightarrow> p \<in> set (catPaths i e) \<Longrightarrow>
         goneOrDeletable fs p \<Longrightarrow> map_of fs' p = None" for p
    unfolding wiped_def by blast+
  have cleared: "exact fs' i e'"
    if "catSize i e' \<noteq> catSize i e" "list_all (goneOrDeletable fs) (catPaths i e)"
  proof -
    from that sizes have z: "catSize i e' = 0" by blast
    from that gone have "\<forall>p \<in> set (catPaths i e). map_of fs' p = None"
      by (simp add: list_all_iff)
    then have "pathsSize fs' (catPaths i e) = 0" by (rule pathsSize_gone)
    with z paths show ?thesis by (simp add: exact_def)
  qed
  have kept: "exact fs' i e'"
    if "catSize i e' = catSize i e" "exact fs i e"
       "list_all (\<lambda>p. list_all (apart p) attempted) (catPaths i e)"
  proof -
    from that(3) have "\<forall>p \<in> set (catPaths i e). getSize fs' p = getSize fs p"
      using ap by (simp add: list_all_iff)
    then have "map (getSize fs') (catPaths i e) = map (getSize fs) (catPaths i e)" by simp
    then have "pathsSize fs' (catPaths i e) = pathsSize fs (catPaths i e)"
      unfolding pathsSize_def by (rule arg_cong)
    with that(1,2) paths show ?thesis by (simp add: exact_def)
  qed
  have iff: "exact fs' i e' \<longleftrightarrow>
      pathsSize fs' (catPaths i e) = (if catSize i e' = catSize i e then catSize i e else 0)"
    using paths sizes by (auto simp: exact_def)
  from paths sizes iff cleared kept show ?thesis unfolding afterDeletion_def by blast
qed

lemma deleteDataImpl_disk:
  assumes "map_of (m_entries w) nm = Some e"
  shows "disk (deleteDataImpl env w nm types)
           = disk (worldOf (clearEntry (setBusy True w) e 0 types))"
  using assms
  by (simp add: deleteDataImpl_def split_beta Let_def changedOf_def entryOf_def
      deletedOf_def worldOf_def)

lemma deleteDataImpl_after:
  assumes wf: "wellFormed (disk w)"
    and h: "map_of (m_entries (deleteDataImpl env w nm types)) n = Some e'"
    and i: "i < 3"
  shows "\<exists>e. map_of (m_entries w) n = Some e
      \<and> afterDeletion (disk w) (disk (deleteDataImpl env w nm types))
           (batch types (theEntry w nm)) i e e'"
proof (cases "map_of (m_entries w) nm")
  case None
  then have same: "deleteDataImpl env w nm types = w" by (simp add: deleteDataImpl_def)
  have "afterDeletion (disk w) (disk w) (batch types (theEntry w nm)) i e' e'"
    using wiped_refl i by (rule wiped_afterDeletion) simp
  with h show ?thesis by (simp add: same)
next
  case (Some e0)
  let ?r = "clearEntry (setBusy True w) e0 0 types"
  have d: "disk (deleteDataImpl env w nm types) = disk (worldOf ?r)"
    using Some by (rule deleteDataImpl_disk)
  have b: "theEntry w nm = e0" using Some by (simp add: theEntry_def)
  have ap: "getSize (disk (worldOf ?r)) p = getSize (disk w) p"
    if "\<forall>q \<in> set (batch types e0). apart p q" for p
    using clearEntry_apart [OF that, of "setBusy True w" 0] by simp
  show ?thesis
  proof (cases "n = nm")
    case True
    with h Some have e': "e' = entryOf ?r"
      by (simp add: deleteDataImpl_known [OF Some] update_conv delete_conv split: if_splits)
    have "wiped (disk w) (disk (worldOf ?r)) e0 (entryOf ?r)"
      using clearEntry_wiped [of "setBusy True w" e0 0 types] wf by simp
    then have "afterDeletion (disk w) (disk (worldOf ?r)) (batch types e0) i e0 (entryOf ?r)"
      using i ap by (rule wiped_afterDeletion)
    with Some True show ?thesis by (simp add: d b e')
  next
    case False
    with h Some have m: "map_of (m_entries w) n = Some e'"
      by (simp add: deleteDataImpl_known [OF Some] update_conv delete_conv split: if_splits)
    have "afterDeletion (disk w) (disk (worldOf ?r)) (batch types e0) i e' e'"
      using wiped_refl i ap by (rule wiped_afterDeletion)
    with m show ?thesis by (simp add: d b)
  qed
qed

lemma deleteUnusedDataImpl_disk:
  "disk (deleteUnusedDataImpl env w types)
     = disk (snd (unusedLoop env types [] (m_entries w) 0 (setBusy True w)))"
  by (simp add: deleteUnusedDataImpl_def split_beta Let_def)

lemma deleteUnusedDataImpl_after:
  assumes wf: "wellFormed (disk w)" and di: "distinct (map fst (m_entries w))"
    and h: "map_of (m_entries (deleteUnusedDataImpl env w types)) n = Some e'"
    and i: "i < 3"
  shows "\<exists>e. map_of (m_entries w) n = Some e
      \<and> afterDeletion (disk w) (disk (deleteUnusedDataImpl env w types))
           (unusedBatch types (m_entries w)) i e e'"
proof -
  let ?res = "snd (unusedLoop env types [] (m_entries w) 0 (setBusy True w))"
  have wf': "wellFormed (disk (setBusy True w))" using wf by simp
  have m: "m_entries (setBusy True w) = [] @ m_entries w" by simp
  from unusedLoop_wiped [OF wf' m, of env types 0] obtain R where
    R: "m_entries ?res = R"
       "\<And>n e'. (n, e') \<in> set R \<Longrightarrow>
          \<exists>e. (n, e) \<in> set (m_entries w) \<and> wiped (disk w) (disk ?res) e e'"
    by auto
  from h have "(n, e') \<in> set R"
    unfolding deleteUnusedDataImpl_entries R(1) by (rule map_of_SomeD)
  from R(2) [OF this] obtain e where
    e: "(n, e) \<in> set (m_entries w)" "wiped (disk w) (disk ?res) e e'" by blast
  have ap: "getSize (disk ?res) p = getSize (disk w) p"
    if "\<forall>q \<in> set (unusedBatch types (m_entries w)). apart p q" for p
    using unusedLoop_apart [OF that, of env "[]" 0 "setBusy True w"] by simp
  from e(2) i ap
  have "afterDeletion (disk w) (disk ?res) (unusedBatch types (m_entries w)) i e e'"
    by (rule wiped_afterDeletion)
  moreover from di e(1) have "map_of (m_entries w) n = Some e" by simp
  ultimately show ?thesis by (simp add: deleteUnusedDataImpl_disk)
qed

lemma resetImpl_after:
  assumes h: "map_of (m_entries (resetImpl env w)) n = Some e" and i: "i < 3"
  shows "afterRescan (disk w) (n \<in> set (mergedNames env (disk w) i)) i e"
proof (cases "n \<in> set (mergedNames env (disk w) i)")
  case True
  from rescanInv_merged [OF resetImpl_rescanInv h i] True
  have ne: "catPaths i e \<noteq> []"
    and sz: "catSize i e = getSize (disk w) (last (catPaths i e))" by simp_all
  from ne have "pathsSize (disk w) (butlast (catPaths i e) @ [last (catPaths i e)])
      = pathsSize (disk w) (catPaths i e)" by simp
  then have "pathsSize (disk w) (catPaths i e)
      = pathsSize (disk w) (butlast (catPaths i e)) + getSize (disk w) (last (catPaths i e))"
    by (simp del: append_butlast_last_id)
  with sz have "exact (disk w) i e \<longleftrightarrow> pathsSize (disk w) (butlast (catPaths i e)) = 0"
    by (simp add: exact_def)
  with True ne sz show ?thesis by (simp add: afterRescan_def)
next
  case False
  from rescanInv_plain [OF resetImpl_rescanInv h i] False
  show ?thesis by (simp add: afterRescan_def)
qed

text \<open>
  The rescan's merge appends the directory to the category's paths and assigns its size:
  for a known application that already has a path there, 5 is cached where the two
  recorded paths hold 15.
\<close>

lemma rescan_merge_overwrites_size:
  "config_paths (theEntry (resetImpl mergeEnv (newModel mergeDisk)) ''harbour-bar'')
     = [''/home/.config/bar.conf'', ''/home/.config/harbour-bar'']
   \<and> config_size (theEntry (resetImpl mergeEnv (newModel mergeDisk)) ''harbour-bar'') = 5
   \<and> pathsSize (disk (resetImpl mergeEnv (newModel mergeDisk)))
        (config_paths (theEntry (resetImpl mergeEnv (newModel mergeDisk)) ''harbour-bar'')) = 15"
  by code_simp

text \<open>
  A batch that succeeds in part: one of two files is removed, the other is not, 10 bytes
  count as reclaimed and the size is set to 0 while the recorded paths still hold 20.
\<close>

lemma partial_success_zeroes_size:
  "exact demoDisk 0 twoConfigFiles
   \<and> \<not> goneOrDeletable demoDisk ''/d/b''
   \<and> deletedOf (clearEntry (newModel demoDisk) twoConfigFiles 0 {ConfigData}) = 10
   \<and> emitted (worldOf (clearEntry (newModel demoDisk) twoConfigFiles 0 {ConfigData}))
       = [DeletionError ''/d/b'']
   \<and> config_size (entryOf (clearEntry (newModel demoDisk) twoConfigFiles 0 {ConfigData})) = 0
   \<and> pathsSize (disk (worldOf (clearEntry (newModel demoDisk) twoConfigFiles 0 {ConfigData})))
        (config_paths (entryOf (clearEntry (newModel demoDisk) twoConfigFiles 0 {ConfigData})))
       = 20"
  by code_simp

text \<open>
  C2, as stated, fails: \<open>deleteDataImpl\<close> removes one of the two files of a directory and
  fails on the other, so nothing counts as reclaimed and 30 stays cached, while the
  recorded path now holds 20.
\<close>

theorem cached_size_stale_counterexample:
  "config_paths (theEntry (deleteDataImpl plainEnv
        (resetImpl plainEnv (newModel partialDisk)) ''harbour-foo'' {ConfigData}) ''harbour-foo'')
     = [''/cfg/harbour-foo'']
   \<and> config_size (theEntry (deleteDataImpl plainEnv
        (resetImpl plainEnv (newModel partialDisk)) ''harbour-foo'' {ConfigData}) ''harbour-foo'') = 30
   \<and> pathsSize (disk (deleteDataImpl plainEnv
        (resetImpl plainEnv (newModel partialDisk)) ''harbour-foo'' {ConfigData}))
        (config_paths (theEntry (deleteDataImpl plainEnv
           (resetImpl plainEnv (newModel partialDisk)) ''harbour-foo'' {ConfigData}) ''harbour-foo'')) = 20"
  by code_simp

text \<open>
  C2, amended. For every record and each of its three categories, numbered 0, 1 and 2:

  After \<open>resetImpl\<close>, which leaves the disk as it is, the cached size is the sum of
  \<open>getSize\<close> over the recorded paths, unless the discovery merged a directory into the
  category. Then the cached size is the size of that directory, the last recorded path,
  and it is the sum precisely when the paths recorded before it hold 0 bytes.

  After \<open>deleteDataImpl\<close> and after \<open>deleteUnusedDataImpl\<close>, on a disk with one node per
  path (and one record per name for the latter), every record that is left was there
  before, with the same path list and a cached size that is what it was or 0. No size is
  measured again: the cached size is the sum afterwards precisely when the recorded paths
  then hold the former cached size, or 0 if the size has changed. A category whose size
  has changed has the sum as its size when each of its paths was gone already or could be
  deleted. A category that kept its size and had the sum as its size before still has it
  when each of its paths is apart from every path the deletion hands to \<open>removePaths\<close>:
  the paths of the requested categories with a positive size, in the record named or in
  every record that is not installed.
\<close>

theorem cached_size_exact:
  assumes "i < 3"
  shows "(map_of (m_entries (resetImpl env w)) n = Some e
          \<longrightarrow> disk (resetImpl env w) = disk w
            \<and> afterRescan (disk w) (n \<in> set (mergedNames env (disk w) i)) i e)
    \<and> (wellFormed (disk w)
          \<and> map_of (m_entries (deleteDataImpl env w nm types)) n = Some e
          \<longrightarrow> (\<exists>e0. map_of (m_entries w) n = Some e0
                \<and> afterDeletion (disk w) (disk (deleteDataImpl env w nm types))
                     (batch types (theEntry w nm)) i e0 e))
    \<and> (wellFormed (disk w) \<and> distinct (map fst (m_entries w))
          \<and> map_of (m_entries (deleteUnusedDataImpl env w types)) n = Some e
          \<longrightarrow> (\<exists>e0. map_of (m_entries w) n = Some e0
                \<and> afterDeletion (disk w) (disk (deleteUnusedDataImpl env w types))
                     (unusedBatch types (m_entries w)) i e0 e))"
  using assms resetImpl_after [of env w n e i]
    deleteDataImpl_after [of w env nm types n e i]
    deleteUnusedDataImpl_after [of w env types n e i]
  by (simp only: resetImpl_disk) blast

theorem cached_size_exact_witness:
  "(0::nat) < 3 \<and> (1::nat) < 3
   \<and> map_of (m_entries (resetImpl harmlessEnv (newModel harmlessDisk))) ''harbour-baz''
        = Some (theEntry (resetImpl harmlessEnv (newModel harmlessDisk)) ''harbour-baz'')
   \<and> ''harbour-baz'' \<in> set (mergedNames harmlessEnv (disk (newModel harmlessDisk)) 0)
   \<and> pathsSize (disk (newModel harmlessDisk)) (butlast (catPaths 0
        (theEntry (resetImpl harmlessEnv (newModel harmlessDisk)) ''harbour-baz''))) = 0
   \<and> exact (disk (newModel harmlessDisk)) 0
        (theEntry (resetImpl harmlessEnv (newModel harmlessDisk)) ''harbour-baz'')
   \<and> wellFormed (disk scenario) \<and> distinct (map fst (m_entries scenario))
   \<and> map_of (m_entries (deleteDataImpl scenarioEnv scenario ''harbour-foo'' {CacheData}))
        ''harbour-foo''
        = Some (theEntry (deleteDataImpl scenarioEnv scenario ''harbour-foo'' {CacheData})
             ''harbour-foo'')
   \<and> catSize 1 (theEntry (deleteDataImpl scenarioEnv scenario ''harbour-foo'' {CacheData})
        ''harbour-foo'') \<noteq> catSize 1 (theEntry scenario ''harbour-foo'')
   \<and> list_all (goneOrDeletable (disk scenario)) (catPaths 1 (theEntry scenario ''harbour-foo''))
   \<and> exact (disk (deleteDataImpl scenarioEnv scenario ''harbour-foo'' {CacheData})) 1
        (theEntry (deleteDataImpl scenarioEnv scenario ''harbour-foo'' {CacheData})
           ''harbour-foo'')
   \<and> map_of (m_entries (deleteUnusedDataImpl scenarioEnv scenario {CacheData})) ''app.x''
        = Some (theEntry (deleteUnusedDataImpl scenarioEnv scenario {CacheData}) ''app.x'')
   \<and> catSize 0 (theEntry (deleteUnusedDataImpl scenarioEnv scenario {CacheData}) ''app.x'')
        = catSize 0 (theEntry scenario ''app.x'')
   \<and> exact (disk scenario) 0 (theEntry scenario ''app.x'')
   \<and> list_all (\<lambda>p. list_all (apart p) (unusedBatch {CacheData} (m_entries scenario)))
        (catPaths 0 (theEntry scenario ''app.x''))
   \<and> exact (disk (deleteUnusedDataImpl scenarioEnv scenario {CacheData})) 0
        (theEntry (deleteUnusedDataImpl scenarioEnv scenario {CacheData}) ''app.x'')"
proof -
  let ?R = "resetImpl harmlessEnv (newModel harmlessDisk)"
  let ?D = "deleteDataImpl scenarioEnv scenario ''harbour-foo'' {CacheData}"
  let ?U = "deleteUnusedDataImpl scenarioEnv scenario {CacheData}"
  have r1: "map_of (m_entries ?R) ''harbour-baz'' = Some (theEntry ?R ''harbour-baz'')"
    by code_simp
  have r2: "''harbour-baz'' \<in> set (mergedNames harmlessEnv (disk (newModel harmlessDisk)) 0)"
    by code_simp
  have r3: "pathsSize (disk (newModel harmlessDisk))
      (butlast (catPaths 0 (theEntry ?R ''harbour-baz''))) = 0"
    by code_simp
  have wf: "wellFormed (disk scenario)"
    unfolding scenario_def by code_simp
  have di: "distinct (map fst (m_entries scenario))"
    unfolding scenario_def by code_simp
  have d0: "map_of (m_entries scenario) ''harbour-foo'' = Some (theEntry scenario ''harbour-foo'')"
    unfolding scenario_def by code_simp
  have d1: "map_of (m_entries ?D) ''harbour-foo'' = Some (theEntry ?D ''harbour-foo'')"
    unfolding scenario_def by code_simp
  have d2: "catSize 1 (theEntry ?D ''harbour-foo'') \<noteq> catSize 1 (theEntry scenario ''harbour-foo'')"
    unfolding scenario_def by code_simp
  have d3: "list_all (goneOrDeletable (disk scenario))
      (catPaths 1 (theEntry scenario ''harbour-foo''))"
    unfolding scenario_def by code_simp
  have u0: "map_of (m_entries scenario) ''app.x'' = Some (theEntry scenario ''app.x'')"
    unfolding scenario_def by code_simp
  have u1: "map_of (m_entries ?U) ''app.x'' = Some (theEntry ?U ''app.x'')"
    unfolding scenario_def by code_simp
  have u2: "catSize 0 (theEntry ?U ''app.x'') = catSize 0 (theEntry scenario ''app.x'')"
    unfolding scenario_def by code_simp
  have u3: "exact (disk scenario) 0 (theEntry scenario ''app.x'')"
    unfolding scenario_def by code_simp
  have u4: "list_all (\<lambda>p. list_all (apart p) (unusedBatch {CacheData} (m_entries scenario)))
      (catPaths 0 (theEntry scenario ''app.x''))"
    unfolding scenario_def by code_simp
  have lt: "(0::nat) < 3" "(1::nat) < 3" by simp_all
  have "afterRescan (disk (newModel harmlessDisk)) True 0 (theEntry ?R ''harbour-baz'')"
    using cached_size_exact [OF lt(1), where env = harmlessEnv and w = "newModel harmlessDisk"
        and n = "''harbour-baz''" and e = "theEntry ?R ''harbour-baz''"] r1 r2
    by simp
  with r3 have a: "exact (disk (newModel harmlessDisk)) 0 (theEntry ?R ''harbour-baz'')"
    by (simp add: afterRescan_def)
  have "\<exists>e0. map_of (m_entries scenario) ''harbour-foo'' = Some e0
      \<and> afterDeletion (disk scenario) (disk ?D)
           (batch {CacheData} (theEntry scenario ''harbour-foo'')) 1 e0
           (theEntry ?D ''harbour-foo'')"
    using cached_size_exact [OF lt(2), where env = scenarioEnv and w = scenario
        and n = "''harbour-foo''" and e = "theEntry ?D ''harbour-foo''"
        and nm = "''harbour-foo''" and types = "{CacheData}"] wf d1
    by simp
  with d0 have "afterDeletion (disk scenario) (disk ?D)
      (batch {CacheData} (theEntry scenario ''harbour-foo'')) 1
      (theEntry scenario ''harbour-foo'') (theEntry ?D ''harbour-foo'')"
    by simp
  with d2 d3 have b: "exact (disk ?D) 1 (theEntry ?D ''harbour-foo'')"
    unfolding afterDeletion_def by blast
  have "\<exists>e0. map_of (m_entries scenario) ''app.x'' = Some e0
      \<and> afterDeletion (disk scenario) (disk ?U)
           (unusedBatch {CacheData} (m_entries scenario)) 0 e0 (theEntry ?U ''app.x'')"
    using cached_size_exact [OF lt(1), where env = scenarioEnv and w = scenario
        and n = "''app.x''" and e = "theEntry ?U ''app.x''" and types = "{CacheData}"] wf di u1
    by simp
  with u0 have "afterDeletion (disk scenario) (disk ?U)
      (unusedBatch {CacheData} (m_entries scenario)) 0
      (theEntry scenario ''app.x'') (theEntry ?U ''app.x'')"
    by simp
  with u2 u3 u4 have c: "exact (disk ?U) 0 (theEntry ?U ''app.x'')"
    unfolding afterDeletion_def by blast
  from lt r1 r2 r3 a wf di d1 d2 d3 b u1 u2 u3 u4 c show ?thesis by (intro conjI)
qed

end
